theory Spec2Isabelle
  imports Main "HOL-Library.Word"
begin

unbundle bit_operations_syntax

section \<open>The terminal backend of doom-ascii: \<^verbatim>\<open>doomgeneric_ascii.c\<close>\<close>

text \<open>
  The file has two halves. \<^verbatim>\<open>DG_DrawFrame\<close> turns the engine's frame buffer into
  terminal text; \<^verbatim>\<open>DG_ReadInput\<close> turns a burst of raw terminal bytes into key
  events that \<^verbatim>\<open>DG_GetKey\<close> hands to the engine. Both are embedded below as
  functions on explicit state.

  C \<^verbatim>\<open>char\<close> data that the code compares and combines bitwise is an \<open>8 word\<close>;
  text written to the terminal is a HOL \<open>string\<close>. A call of \<^verbatim>\<open>I_Error\<close> ends the
  process, so it is a result value of its own.
\<close>

type_synonym byte = "8 word"
type_synonym pixel_t = "32 word"

text \<open>
  Modelled from the spec: \<^verbatim>\<open>I_Error\<close> is declared in \<^verbatim>\<open>i_system.h\<close> and defined
  outside this file. Section 7 of the specification says that every such failure is
  fatal: the process terminates at once with a diagnostic message. The value carries the
  format string of the call.
\<close>

datatype fatal = I_Error string | Out_Of_Bounds

text \<open>
  \<open>Out_Of_Bounds\<close> stands for an access outside an array or through a null pointer,
  which C leaves undefined.
  A poll never produces it (\<open>DG_ReadInput_in_bounds\<close> below).
\<close>

section \<open>Frame encoder\<close>

subsection \<open>Pixels\<close>

text \<open>
  \<^verbatim>\<open>struct color_t\<close> is four 8-bit bit-fields \<^verbatim>\<open>b, g, r, a\<close> laid over one
  \<^verbatim>\<open>uint32_t\<close> of \<^verbatim>\<open>DG_ScreenBuffer\<close>; the code reads the same storage both ways
  (\<^verbatim>\<open>pixel->r\<close> and \<^verbatim>\<open>*(uint32_t *)pixel\<close>). On the little-endian ABIs the program is
  built for, bit-fields are allocated from the least significant bit, so \<^verbatim>\<open>b\<close> is bits
  0 to 7, \<^verbatim>\<open>g\<close> bits 8 to 15, \<^verbatim>\<open>r\<close> bits 16 to 23 and \<^verbatim>\<open>a\<close> bits 24 to 31.
\<close>

definition color_b :: "pixel_t \<Rightarrow> byte" where
  "color_b p = ucast p"

definition color_g :: "pixel_t \<Rightarrow> byte" where
  "color_g p = ucast (drop_bit 8 p)"

definition color_r :: "pixel_t \<Rightarrow> byte" where
  "color_r p = ucast (drop_bit 16 p)"

definition color_a :: "pixel_t \<Rightarrow> byte" where
  "color_a p = ucast (drop_bit 24 p)"

subsection \<open>The brightness ramp\<close>

text \<open>
  \<^verbatim>\<open>const char grad[] = " .-+1x@";\<close> is an array of eight bytes: the seven glyphs and
  the terminating NUL of the string literal. \<^verbatim>\<open>GRAD_LEN\<close> is \<^verbatim>\<open>8u\<close>.
\<close>

definition NUL :: char where
  "NUL = CHR 0x00"

definition ESC :: char where
  "ESC = CHR 0x1B"

definition grad :: string where
  "grad = '' .-+1x@'' @ [NUL]"

definition GRAD_LEN :: nat where
  "GRAD_LEN = 8"

text \<open>
  \<^verbatim>\<open>grad[(pixel->r + pixel->g + pixel->b) * GRAD_LEN / 766u]\<close>. The sum is at most 765,
  the product at most 6120: nothing wraps, so the arithmetic is done on \<open>nat\<close>.
\<close>

definition grad_index :: "pixel_t \<Rightarrow> nat" where
  "grad_index p = (unat (color_r p) + unat (color_g p) + unat (color_b p)) * GRAD_LEN div 766"

definition v_char :: "pixel_t \<Rightarrow> char" where
  "v_char p = grad ! grad_index p"

subsection \<open>Colour codes\<close>

text \<open>
  \<^verbatim>\<open>rgb_to_color\<close> classifies hue, saturation and brightness, all computed in
  \<^verbatim>\<open>float\<close>, and returns one of fourteen string literals. The floating-point
  classification is not embedded: the encoder takes the composed function from a pixel
  to its code as the parameter \<open>acc\<close> (the name of the local that holds the result).
  The literals themselves are those of the source.
\<close>

definition sgr_codes :: "string list" where
  "sgr_codes =
    [''1;37'', ''1;31'', ''1;33'', ''1;32'', ''1;36'', ''1;34'', ''1;35'',
     ''0;37'', ''0;31'', ''0;33'', ''0;32'', ''0;36'', ''0;34'', ''0;35'']"

subsection \<open>The pixel loops\<close>

record draw_state =
  color :: pixel_t
  buf :: string
  pixel :: nat

text \<open>
  The body of the inner loop. \<open>scr\<close> is \<^verbatim>\<open>DG_ScreenBuffer\<close>, addressed by pixel offset;
  \<open>pixel\<close> is the offset of the pointer \<^verbatim>\<open>pixel\<close>; \<open>buf\<close> holds the bytes stored
  through the pointer \<^verbatim>\<open>buf\<close> so far.
\<close>

definition color_differs :: "pixel_t \<Rightarrow> pixel_t \<Rightarrow> bool" where
  "color_differs c p = ((c XOR p) AND 0x00FFFFFF \<noteq> 0)"

definition draw_pixel :: "(pixel_t \<Rightarrow> string) \<Rightarrow> (nat \<Rightarrow> pixel_t) \<Rightarrow> draw_state \<Rightarrow> draw_state" where
  "draw_pixel acc scr d =
    (let p = scr (pixel d);
         d1 = (if color_differs (color d) p
               then d\<lparr>buf := buf d @ [ESC, CHR ''[''] @ take 4 (acc p) @ ''m'', color := p\<rparr>
               else d)
     in d1\<lparr>buf := buf d1 @ [v_char p, v_char p], pixel := Suc (pixel d1)\<rparr>)"

primrec draw_cols :: "(pixel_t \<Rightarrow> string) \<Rightarrow> (nat \<Rightarrow> pixel_t) \<Rightarrow> nat \<Rightarrow> draw_state \<Rightarrow> draw_state" where
  "draw_cols acc scr 0 d = d"
| "draw_cols acc scr (Suc n) d = draw_cols acc scr n (draw_pixel acc scr d)"

primrec draw_rows :: "(pixel_t \<Rightarrow> string) \<Rightarrow> (nat \<Rightarrow> pixel_t) \<Rightarrow> nat \<Rightarrow> nat \<Rightarrow> draw_state \<Rightarrow> draw_state" where
  "draw_rows acc scr resx 0 d = d"
| "draw_rows acc scr resx (Suc n) d =
    draw_rows acc scr resx n
      (let d1 = draw_cols acc scr resx d in d1\<lparr>buf := buf d1 @ [CHR 0x0A]\<rparr>)"

subsection \<open>\<^verbatim>\<open>DG_DrawFrame\<close>\<close>

text \<open>
  The state that outlives a call: the static \<^verbatim>\<open>first_frame\<close> and the contents of
  \<^verbatim>\<open>output_buffer\<close>. The local \<^verbatim>\<open>color\<close> is set to \<^verbatim>\<open>0xFFFFFF00\<close> at every call.

  The encoder stores its text from the start of \<^verbatim>\<open>output_buffer\<close> and writes no
  terminator; \<^verbatim>\<open>fputs\<close> sends the buffer up to its first NUL byte, and \<^verbatim>\<open>memset\<close> then
  clears exactly the bytes that were stored. The stores stay inside the buffer as long
  as the computation of its size does not wrap (\<open>frame_text_fits\<close> below). \<open>resx\<close> and \<open>resy\<close> are
  \<^verbatim>\<open>DOOMGENERIC_RESX\<close> and \<^verbatim>\<open>DOOMGENERIC_RESY\<close> of \<^verbatim>\<open>doomgeneric.h\<close>; \<open>fputs_eof\<close> says
  whether the checked \<^verbatim>\<open>fputs\<close> returns \<^verbatim>\<open>EOF\<close>. The result is the text sent to
  standard output and the new state.
\<close>

record frame_state =
  first_frame :: bool
  output_buffer :: string

definition clear_screen :: string where
  "clear_screen = [ESC] @ ''[1;1H'' @ [ESC] @ ''[2J''"

definition cursor_home :: string where
  "cursor_home = [ESC] @ ''[;H'' @ [ESC] @ ''[1m''"

definition sgr_reset :: string where
  "sgr_reset = [ESC] @ ''[0m''"

definition frame_text :: "(pixel_t \<Rightarrow> string) \<Rightarrow> nat \<Rightarrow> nat \<Rightarrow> (nat \<Rightarrow> pixel_t) \<Rightarrow> string" where
  "frame_text acc resx resy scr =
    buf (draw_rows acc scr resx resy \<lparr>color = 0xFFFFFF00, buf = [], pixel = 0\<rparr>) @ sgr_reset"

definition DG_DrawFrame ::
  "(pixel_t \<Rightarrow> string) \<Rightarrow> nat \<Rightarrow> nat \<Rightarrow> (nat \<Rightarrow> pixel_t) \<Rightarrow> bool \<Rightarrow> frame_state
    \<Rightarrow> fatal + (string \<times> frame_state)" where
  "DG_DrawFrame acc resx resy scr fputs_eof st =
    (let clear = (if first_frame st then clear_screen else []);
         text = frame_text acc resx resy scr;
         mem = text @ drop (length text) (output_buffer st)
     in if fputs_eof then Inl (I_Error ''DG_DrawFrame: fputs error %d'')
        else Inr (clear @ cursor_home @ takeWhile (\<lambda>c. c \<noteq> NUL) mem,
                  \<lparr>first_frame = False,
                   output_buffer = replicate (length text) NUL @ drop (length text) mem\<rparr>))"

text \<open>
  \<^verbatim>\<open>DG_Init\<close> allocates \<^verbatim>\<open>21u * RESX * RESY + RESY + 4u\<close> bytes with \<^verbatim>\<open>malloc\<close>. The
  size is computed in \<^verbatim>\<open>unsigned\<close>, a 32-bit word that wraps. The contents are whatever the
  allocator returns, here the parameter \<open>heap\<close>.
\<close>

definition output_buffer_size :: "nat \<Rightarrow> nat \<Rightarrow> nat" where
  "output_buffer_size resx resy =
    unat (21 * word_of_nat resx * word_of_nat resy + word_of_nat resy + 4 :: 32 word)"

definition DG_Init_frame :: "nat \<Rightarrow> nat \<Rightarrow> (nat \<Rightarrow> char) \<Rightarrow> frame_state" where
  "DG_Init_frame resx resy heap =
    \<lparr>first_frame = True, output_buffer = map heap [0 ..< output_buffer_size resx resy]\<rparr>"

subsection \<open>Observing the output\<close>

text \<open>
  A colour-escape sequence in a text is \<^verbatim>\<open>ESC [\<close>, one of the fourteen codes, \<^verbatim>\<open>m\<close>.
  \<open>count_color_escapes\<close> counts the positions of a text at which one starts.
\<close>

definition is_color_escape :: "string \<Rightarrow> bool" where
  "is_color_escape cs =
    (take 2 cs = [ESC, CHR ''['']
      \<and> take 4 (drop 2 cs) \<in> set sgr_codes
      \<and> take 1 (drop 6 cs) = ''m'')"

fun count_color_escapes :: "string \<Rightarrow> nat" where
  "count_color_escapes [] = 0"
| "count_color_escapes (c # cs) =
    (if is_color_escape (c # cs) then 1 else 0) + count_color_escapes cs"


text \<open>A frame of one colour: every pixel has the red, green and blue of the first.\<close>

definition uniform_frame :: "nat \<Rightarrow> nat \<Rightarrow> (nat \<Rightarrow> pixel_t) \<Rightarrow> bool" where
  "uniform_frame resx resy scr =
    (\<forall>i<resx * resy. color_r (scr i) = color_r (scr 0) \<and> color_g (scr i) = color_g (scr 0)
        \<and> color_b (scr i) = color_b (scr 0))"

text \<open>The red, green and blue of the initial value \<^verbatim>\<open>0xFFFFFF00\<close> of \<^verbatim>\<open>color\<close>.\<close>

definition is_sentinel_rgb :: "pixel_t \<Rightarrow> bool" where
  "is_sentinel_rgb p = (color_r p = 0xFF \<and> color_g p = 0xFF \<and> color_b p = 0)"

definition channel_sum :: "pixel_t \<Rightarrow> nat" where
  "channel_sum p = unat (color_r p) + unat (color_g p) + unat (color_b p)"

text \<open>The seven glyphs of the ramp, without the terminator of the array.\<close>

definition ramp :: string where
  "ramp = '' .-+1x@''"

section \<open>Input event deriver\<close>

subsection \<open>Key codes and characters\<close>

text \<open>
  The key codes come from \<^verbatim>\<open>doomkeys.h\<close>, which is not part of this file: they are a
  parameter of the decoder. \<^verbatim>\<open>convertToDoomKey\<close> returns them as \<^verbatim>\<open>char\<close>.
\<close>

record doomkeys =
  KEY_ENTER :: byte
  KEY_ESCAPE :: byte
  KEY_UPARROW :: byte
  KEY_DOWNARROW :: byte
  KEY_RIGHTARROW :: byte
  KEY_LEFTARROW :: byte
  KEY_FIRE :: byte

text \<open>
  \<^verbatim>\<open>tolower\<close> of the C library in the \<^verbatim>\<open>"C"\<close> locale (the program never calls
  \<^verbatim>\<open>setlocale\<close>): the letters \<^verbatim>\<open>A\<close> to \<^verbatim>\<open>Z\<close> move to \<^verbatim>\<open>a\<close> to \<^verbatim>\<open>z\<close>, every other
  byte stays.
\<close>

definition tolower :: "byte \<Rightarrow> byte" where
  "tolower c = (if 0x41 \<le> c \<and> c \<le> 0x5A then c + 0x20 else c)"

text \<open>
  Whether plain \<^verbatim>\<open>char\<close> is signed is the platform's choice (signed on x86, unsigned on
  ARM Linux). It matters where a \<^verbatim>\<open>char\<close> is promoted to \<^verbatim>\<open>int\<close>; the flag \<open>sg\<close> says
  which it is.
\<close>

definition char_to_int :: "bool \<Rightarrow> byte \<Rightarrow> 32 word" where
  "char_to_int sg c = (if sg then scast c else ucast c)"

subsection \<open>\<^verbatim>\<open>convertToDoomKey\<close>\<close>

text \<open>
  The argument is the rest of \<^verbatim>\<open>raw_input_buffer\<close> from the read cursor \<^verbatim>\<open>*buf\<close> on;
  the result is the key and the rest from the advanced cursor. \<open>None\<close> is a read
  beyond the end of the array. The bytes compared are \<^verbatim>\<open>'\012'\<close> (\<open>0x0A\<close>),
  \<^verbatim>\<open>'\033'\<close> (\<open>0x1B\<close>), \<^verbatim>\<open>'['\<close> (\<open>0x5B\<close>), \<^verbatim>\<open>'A'\<close> to \<^verbatim>\<open>'D'\<close> (\<open>0x41\<close> to \<open>0x44\<close>) and
  \<^verbatim>\<open>' '\<close> (\<open>0x20\<close>). After \<^verbatim>\<open>ESC [\<close> and a byte that is none of \<^verbatim>\<open>A\<close> to \<^verbatim>\<open>D\<close>, control
  falls out of the innermost \<^verbatim>\<open>switch\<close> into \<^verbatim>\<open>default: return KEY_ESCAPE\<close> with two
  bytes consumed.
\<close>

definition convertToDoomKey :: "doomkeys \<Rightarrow> byte list \<Rightarrow> (byte \<times> byte list) option" where
  "convertToDoomKey K cursor =
    (case cursor of
       [] \<Rightarrow> None
     | c # buf1 \<Rightarrow>
         if c = 0x0A then Some (KEY_ENTER K, buf1)
         else if c = 0x1B then
           (case buf1 of
              [] \<Rightarrow> None
            | c1 # buf2 \<Rightarrow>
                if c1 = 0x5B then
                  (case buf2 of
                     [] \<Rightarrow> None
                   | c2 # buf3 \<Rightarrow>
                       if c2 = 0x41 then Some (KEY_UPARROW K, buf3)
                       else if c2 = 0x42 then Some (KEY_DOWNARROW K, buf3)
                       else if c2 = 0x43 then Some (KEY_RIGHTARROW K, buf3)
                       else if c2 = 0x44 then Some (KEY_LEFTARROW K, buf3)
                       else Some (KEY_ESCAPE K, buf2))
                else Some (KEY_ESCAPE K, buf1))
         else if c = 0x20 then Some (KEY_FIRE K, buf1)
         else Some (tolower c, buf1))"

subsection \<open>The decode loop\<close>

text \<open>
  \<^verbatim>\<open>while (*raw_input_buf_loc) *input_buf_loc++ = convertToDoomKey(&raw_input_buf_loc);\<close>
  \<open>raw\<close> is the raw buffer from the read cursor on, \<open>ib\<close> is \<^verbatim>\<open>input_buffer\<close> and
  \<open>loc\<close> the offset of \<^verbatim>\<open>input_buf_loc\<close> in it. The result is the buffer and the final
  offset, which is the number of iterations made.
\<close>

function decode_keys :: "doomkeys \<Rightarrow> byte list \<Rightarrow> byte list \<Rightarrow> nat \<Rightarrow> (byte list \<times> nat) option" where
  "decode_keys K raw ib loc =
    (case raw of
       [] \<Rightarrow> None
     | c # _ \<Rightarrow>
         if c = 0 then Some (ib, loc)
         else (case convertToDoomKey K raw of
                 None \<Rightarrow> None
               | Some (k, raw') \<Rightarrow>
                   if loc < length ib then decode_keys K raw' (ib[loc := k]) (Suc loc)
                   else None))"
  by pat_completeness auto
termination
proof (relation "measure (\<lambda>(K, raw, ib, loc). length raw)")
  show "wf (measure (\<lambda>(K, raw, ib, loc). length raw))"
    by simp
next
  fix K :: doomkeys and raw ib :: "byte list" and loc :: nat
    and c :: byte and rest :: "byte list" and r :: "byte \<times> byte list"
    and k :: byte and raw' :: "byte list"
  assume "convertToDoomKey K raw = Some r" and "(k, raw') = r"
  then have "convertToDoomKey K raw = Some (k, raw')"
    by simp
  then have "length raw' < length raw"
    by (auto simp: convertToDoomKey_def split: list.splits if_splits)
  then show "((K, raw', ib[loc := k], Suc loc), (K, raw, ib, loc))
      \<in> measure (\<lambda>(K, raw, ib, loc). length raw)"
    by simp
qed

text \<open>
  The keys that \<^verbatim>\<open>convertToDoomKey\<close> returns, call after call, while the cursor walks a
  raw buffer up to its first NUL: the loop above without its stores.
\<close>

function key_sequence :: "doomkeys \<Rightarrow> byte list \<Rightarrow> byte list" where
  "key_sequence K raw =
    (case raw of
       [] \<Rightarrow> []
     | c # _ \<Rightarrow>
         if c = 0 then []
         else (case convertToDoomKey K raw of
                 None \<Rightarrow> []
               | Some (k, raw') \<Rightarrow> k # key_sequence K raw'))"
  by pat_completeness auto
termination
proof (relation "measure (\<lambda>(K, raw). length raw)")
  show "wf (measure (\<lambda>(K, raw). length raw))"
    by simp
next
  fix K :: doomkeys and raw :: "byte list" and r :: "byte \<times> byte list"
    and k :: byte and raw' :: "byte list"
  assume "convertToDoomKey K raw = Some r" and "(k, raw') = r"
  then have "convertToDoomKey K raw = Some (k, raw')"
    by simp
  then have "length raw' < length raw"
    by (auto simp: convertToDoomKey_def split: list.splits if_splits)
  then show "((K, raw'), (K, raw)) \<in> measure (\<lambda>(K, raw). length raw)"
    by simp
qed

text \<open>
  A byte that is not NUL and that \<^verbatim>\<open>convertToDoomKey\<close> handles in its \<^verbatim>\<open>default\<close> branch:
  neither newline nor \<^verbatim>\<open>ESC\<close> nor space.
\<close>

definition plain_byte :: "byte \<Rightarrow> bool" where
  "plain_byte c = (c \<noteq> 0 \<and> c \<noteq> 0x0A \<and> c \<noteq> 0x1B \<and> c \<noteq> 0x20)"

text \<open>No key code of \<^verbatim>\<open>doomkeys.h\<close> is the NUL that ends a buffer.\<close>

definition key_codes_nonzero :: "doomkeys \<Rightarrow> bool" where
  "key_codes_nonzero K =
    (KEY_ENTER K \<noteq> 0 \<and> KEY_ESCAPE K \<noteq> 0 \<and> KEY_UPARROW K \<noteq> 0 \<and> KEY_DOWNARROW K \<noteq> 0
      \<and> KEY_RIGHTARROW K \<noteq> 0 \<and> KEY_LEFTARROW K \<noteq> 0 \<and> KEY_FIRE K \<noteq> 0)"

subsection \<open>Events\<close>

text \<open>
  An event is one \<^verbatim>\<open>uint16_t\<close>. The press pass stores \<^verbatim>\<open>0x0100 | input_buffer[i]\<close>, the
  release pass \<^verbatim>\<open>0xFF & prev_input_buffer[i]\<close>; both are computed in \<^verbatim>\<open>int\<close> and cut to
  16 bits by the store.
\<close>

definition press_event :: "bool \<Rightarrow> byte \<Rightarrow> 16 word" where
  "press_event sg c = ucast (0x0100 OR char_to_int sg c)"

definition release_event :: "bool \<Rightarrow> byte \<Rightarrow> 16 word" where
  "release_event sg c = ucast (0xFF AND char_to_int sg c)"

text \<open>
  \<^verbatim>\<open>DG_GetKey\<close> takes an event apart: \<^verbatim>\<open>*pressed = *event_buf_loc >> 8\<close> and
  \<^verbatim>\<open>*doomKey = *event_buf_loc & 0xFF\<close>. The caller reads \<^verbatim>\<open>pressed\<close> as a truth value.
\<close>

definition event_pressed_value :: "16 word \<Rightarrow> 32 word" where
  "event_pressed_value e = ucast (drop_bit 8 e)"

definition event_pressed :: "16 word \<Rightarrow> bool" where
  "event_pressed e = (event_pressed_value e \<noteq> 0)"

definition event_key :: "16 word \<Rightarrow> byte" where
  "event_key e = ucast (e AND 0xFF)"

text \<open>
  The scans \<^verbatim>\<open>for (j = ...; buffer[j]; j++) if (key == buffer[j]) goto ...\<close>. The
  list is the buffer from the first index scanned on; the scan ends at a NUL byte. The
  end of the list is the end of the array, which no scan reaches because the last byte
  of every buffer is NUL.
\<close>

primrec found_in :: "byte \<Rightarrow> byte list \<Rightarrow> bool" where
  "found_in k [] = False"
| "found_in k (c # cs) = (c \<noteq> 0 \<and> (k = c \<or> found_in k cs))"

text \<open>
  The press pass over \<^verbatim>\<open>input_buffer\<close> from index \<open>i\<close> on: first the scan of the later
  entries (\<^verbatim>\<open>skip duplicates\<close>), then the scan of \<^verbatim>\<open>prev_input_buffer\<close>.
\<close>

fun pressed_events :: "bool \<Rightarrow> byte list \<Rightarrow> byte list \<Rightarrow> 16 word list" where
  "pressed_events sg prev [] = []"
| "pressed_events sg prev (c # rest) =
    (if c = 0 then []
     else (if found_in c rest then []
           else if found_in c prev then []
           else [press_event sg c])
          @ pressed_events sg prev rest)"

text \<open>The release pass over \<^verbatim>\<open>prev_input_buffer\<close> from index \<open>i\<close> on.\<close>

fun depressed_events :: "bool \<Rightarrow> byte list \<Rightarrow> byte list \<Rightarrow> 16 word list" where
  "depressed_events sg cur [] = []"
| "depressed_events sg cur (c # rest) =
    (if c = 0 then []
     else (if found_in c cur then [] else [release_event sg c])
          @ depressed_events sg cur rest)"

subsection \<open>\<^verbatim>\<open>DG_ReadInput\<close>\<close>

definition INPUT_BUFFER_LEN :: nat where
  "INPUT_BUFFER_LEN = 16"

definition EVENT_BUFFER_LEN :: nat where
  "EVENT_BUFFER_LEN = INPUT_BUFFER_LEN * 2 - 1"

text \<open>
  The globals \<^verbatim>\<open>input_buffer\<close>, \<^verbatim>\<open>event_buffer\<close> and \<^verbatim>\<open>event_buf_loc\<close> and the two
  static arrays of \<^verbatim>\<open>DG_ReadInput\<close>. The pointer \<^verbatim>\<open>event_buf_loc\<close> is \<open>None\<close> while it is
  null and \<open>Some i\<close> when it points to entry \<open>i\<close> of \<^verbatim>\<open>event_buffer\<close>.
\<close>

record input_state =
  input_buffer :: "byte list"
  prev_input_buffer :: "byte list"
  raw_input_buffer :: "byte list"
  event_buffer :: "16 word list"
  event_buf_loc :: "nat option"

text \<open>
  The state after program start and \<^verbatim>\<open>DG_Init\<close>: objects of static storage start
  zeroed, so \<^verbatim>\<open>event_buf_loc\<close> is a null pointer until the first poll, and \<^verbatim>\<open>DG_Init\<close>
  clears \<^verbatim>\<open>input_buffer\<close>.
\<close>

definition DG_Init_input :: input_state where
  "DG_Init_input =
    \<lparr>input_buffer = replicate INPUT_BUFFER_LEN 0,
     prev_input_buffer = replicate INPUT_BUFFER_LEN 0,
     raw_input_buffer = replicate INPUT_BUFFER_LEN 0,
     event_buffer = replicate EVENT_BUFFER_LEN 0,
     event_buf_loc = None\<rparr>"

text \<open>
  The terminal attributes that the POSIX branch touches, and the answers of the
  operating system to the five calls of one poll. \<open>read_result\<close> is \<open>None\<close> when
  \<^verbatim>\<open>read\<close> returns a negative value, else the bytes that are pending. A call that fails
  leaves the terminal as it was. \<open>ICANON\<close> is the flag of \<^verbatim>\<open>termios.h\<close> (its Linux
  value).
\<close>

record termios =
  c_lflag :: "32 word"
  c_cc_VMIN :: byte
  c_cc_VTIME :: byte

record os_env =
  tcgetattr_fails :: bool
  tcsetattr_newt_fails :: bool
  read_result :: "byte list option"
  tcsetattr_oldt_fails :: bool
  tcflush_fails :: bool

definition ICANON :: "32 word" where
  "ICANON = 0x2"

definition raw_mode :: "termios \<Rightarrow> termios" where
  "raw_mode oldt = oldt\<lparr>c_lflag := c_lflag oldt AND NOT ICANON, c_cc_VMIN := 0, c_cc_VTIME := 0\<rparr>"

text \<open>
  The part of \<^verbatim>\<open>DG_ReadInput\<close> after the platform branch: decode the raw buffer into
  \<^verbatim>\<open>input_buffer\<close>, run the two passes, store their events from the start of
  \<^verbatim>\<open>event_buffer\<close> and reset \<^verbatim>\<open>event_buf_loc\<close>.
\<close>

definition construct_events :: "bool \<Rightarrow> doomkeys \<Rightarrow> input_state \<Rightarrow> fatal + input_state" where
  "construct_events sg K st =
    (case decode_keys K (raw_input_buffer st) (input_buffer st) 0 of
       None \<Rightarrow> Inl Out_Of_Bounds
     | Some (ib, n) \<Rightarrow>
         let evs = pressed_events sg (prev_input_buffer st) ib
                   @ depressed_events sg ib (prev_input_buffer st)
         in if length evs \<le> length (event_buffer st)
            then Inr (st\<lparr>input_buffer := ib,
                         event_buffer := evs @ drop (length evs) (event_buffer st),
                         event_buf_loc := Some 0\<rparr>)
            else Inl Out_Of_Bounds)"

text \<open>
  The POSIX branch (the Windows branch is not embedded). \<open>tio\<close> is the attribute set of the terminal before the call; the
  second component of the result is the attribute set when the call returns or the
  process is terminated by \<^verbatim>\<open>I_Error\<close>. The call begins by copying \<^verbatim>\<open>input_buffer\<close> to
  \<^verbatim>\<open>prev_input_buffer\<close> and clearing the other three arrays, so \<open>st1\<close> keeps nothing
  else of \<open>st\<close>. \<^verbatim>\<open>read\<close> stores at most \<^verbatim>\<open>INPUT_BUFFER_LEN - 1\<close> bytes at the start
  of the cleared raw buffer.
\<close>

definition DG_ReadInput ::
  "bool \<Rightarrow> doomkeys \<Rightarrow> os_env \<Rightarrow> termios \<Rightarrow> input_state \<Rightarrow> (fatal + input_state) \<times> termios" where
  "DG_ReadInput sg K env tio st =
    (let st1 = \<lparr>input_buffer = replicate INPUT_BUFFER_LEN 0,
                  prev_input_buffer = input_buffer st,
                  raw_input_buffer = replicate INPUT_BUFFER_LEN 0,
                  event_buffer = replicate EVENT_BUFFER_LEN 0,
                  event_buf_loc = Some 0\<rparr>
     in if tcgetattr_fails env then (Inl (I_Error ''DG_DrawFrame: tcgetattr error %d''), tio)
        else if tcsetattr_newt_fails env
          then (Inl (I_Error ''DG_DrawFrame: tcsetattr error %d''), tio)
        else (case read_result env of
            None \<Rightarrow> (Inl (I_Error ''DG_DrawFrame: read error %d''), raw_mode tio)
          | Some bytes \<Rightarrow>
              let got = take (INPUT_BUFFER_LEN - 1) bytes;
                  st2 = st1\<lparr>raw_input_buffer := got @ drop (length got) (raw_input_buffer st1)\<rparr>
              in if tcsetattr_oldt_fails env
                   then (Inl (I_Error ''DG_DrawFrame: tcsetattr error %d''), raw_mode tio)
                 else if tcflush_fails env
                   then (Inl (I_Error ''DG_DrawFrame: tcflush error %d''), tio)
                 else (construct_events sg K st2, tio)))"

subsection \<open>What a poll leaves for the engine\<close>

text \<open>
  The Held-Key Set of a buffer is its content up to the first NUL. The Event Queue is
  what repeated calls of \<^verbatim>\<open>DG_GetKey\<close> hand out: the entries of \<^verbatim>\<open>event_buffer\<close> from
  \<^verbatim>\<open>event_buf_loc\<close> up to the first zero entry. Before the first poll the pointer is
  null: there is no queue, and \<^verbatim>\<open>DG_GetKey\<close> reads through the null pointer.
\<close>

definition held_keys :: "byte list \<Rightarrow> byte list" where
  "held_keys b = takeWhile (\<lambda>c. c \<noteq> 0) b"

definition event_queue :: "input_state \<Rightarrow> 16 word list" where
  "event_queue st =
    (case event_buf_loc st of
       None \<Rightarrow> []
     | Some loc \<Rightarrow> takeWhile (\<lambda>e. e \<noteq> 0) (drop loc (event_buffer st)))"

definition DG_GetKey :: "input_state \<Rightarrow> fatal + ((32 word \<times> byte) option \<times> input_state)" where
  "DG_GetKey st =
    (case event_buf_loc st of
       None \<Rightarrow> Inl Out_Of_Bounds
     | Some loc \<Rightarrow>
         if loc < length (event_buffer st)
         then (let e = event_buffer st ! loc
               in if e = 0 then Inr (None, st)
                  else Inr (Some (event_pressed_value e, event_key e),
                            st\<lparr>event_buf_loc := Some (Suc loc)\<rparr>))
         else Inl Out_Of_Bounds)"

text \<open>
  What every poll finds and leaves: \<^verbatim>\<open>input_buffer\<close> has its declared size and its last
  byte is NUL (\<open>input_ok_init\<close> and \<open>DG_ReadInput_Inr\<close> below).
\<close>

definition input_ok :: "input_state \<Rightarrow> bool" where
  "input_ok st =
    (length (input_buffer st) = INPUT_BUFFER_LEN \<and> last (input_buffer st) = 0)"

text \<open>
  The state in which \<open>construct_events\<close> runs when every call of the operating system
  succeeded and \<^verbatim>\<open>read\<close> found \<open>bytes\<close>.
\<close>

definition poll_state :: "input_state \<Rightarrow> byte list \<Rightarrow> input_state" where
  "poll_state st bytes =
    \<lparr>input_buffer = replicate INPUT_BUFFER_LEN 0,
     prev_input_buffer = input_buffer st,
     raw_input_buffer = take (INPUT_BUFFER_LEN - 1) bytes
        @ replicate (INPUT_BUFFER_LEN - length (take (INPUT_BUFFER_LEN - 1) bytes)) 0,
     event_buffer = replicate EVENT_BUFFER_LEN 0,
     event_buf_loc = Some 0\<rparr>"

text \<open>What the engine can observe after a poll that returned: held keys and queue.\<close>

definition poll_view :: "(fatal + input_state) \<times> termios \<Rightarrow> (byte list \<times> 16 word list) option" where
  "poll_view r =
    (case fst r of
       Inl _ \<Rightarrow> None
     | Inr st \<Rightarrow> Some (held_keys (input_buffer st), event_queue st))"

section \<open>Concrete inputs\<close>

text \<open>
  The inputs at which the theorems below are evaluated. A one-pixel frame that is red,
  yellow (the red, green and blue of \<^verbatim>\<open>0xFFFFFF00\<close>) or white, with the code that
  \<^verbatim>\<open>rgb_to_color\<close> gives for that colour, and an output buffer of the size \<^verbatim>\<open>DG_Init\<close>
  allocates for it, holding NUL bytes.
\<close>

definition red_screen :: "nat \<Rightarrow> pixel_t" where
  "red_screen i = 0x00FF0000"

definition red_code :: "pixel_t \<Rightarrow> string" where
  "red_code p = ''1;31''"

definition yellow_screen :: "nat \<Rightarrow> pixel_t" where
  "yellow_screen i = 0x00FFFF00"

definition yellow_code :: "pixel_t \<Rightarrow> string" where
  "yellow_code p = ''1;33''"

definition zero_heap :: "nat \<Rightarrow> char" where
  "zero_heap i = NUL"

definition later_frames :: frame_state where
  "later_frames = \<lparr>first_frame = False, output_buffer = replicate (output_buffer_size 1 1) NUL\<rparr>"

text \<open>
  Key codes as \<^verbatim>\<open>doomkeys.h\<close> of doomgeneric defines them, a poll in which every call
  succeeds, a poll in which \<^verbatim>\<open>read\<close> fails, and a terminal in canonical mode.
\<close>

definition example_keys :: doomkeys where
  "example_keys =
    \<lparr>KEY_ENTER = 13, KEY_ESCAPE = 27, KEY_UPARROW = 0xAD, KEY_DOWNARROW = 0xAF,
     KEY_RIGHTARROW = 0xAE, KEY_LEFTARROW = 0xAC, KEY_FIRE = 0xA3\<rparr>"

definition os_returns :: "byte list \<Rightarrow> os_env" where
  "os_returns bytes =
    \<lparr>tcgetattr_fails = False, tcsetattr_newt_fails = False, read_result = Some bytes,
     tcsetattr_oldt_fails = False, tcflush_fails = False\<rparr>"

definition os_read_fails :: os_env where
  "os_read_fails =
    \<lparr>tcgetattr_fails = False, tcsetattr_newt_fails = False, read_result = None,
     tcsetattr_oldt_fails = False, tcflush_fails = False\<rparr>"

definition cooked :: termios where
  "cooked = \<lparr>c_lflag = 0x8A3B, c_cc_VMIN = 1, c_cc_VTIME = 0\<rparr>"

text \<open>Bursts of fifteen different letters and digits, and the states polls leave.\<close>

definition burst_a_to_o :: "byte list" where
  "burst_a_to_o =
    [0x61, 0x62, 0x63, 0x64, 0x65, 0x66, 0x67, 0x68, 0x69, 0x6A, 0x6B, 0x6C, 0x6D, 0x6E, 0x6F]"

definition burst_p_to_3 :: "byte list" where
  "burst_p_to_3 =
    [0x70, 0x71, 0x72, 0x73, 0x74, 0x75, 0x76, 0x77, 0x78, 0x79, 0x7A, 0x30, 0x31, 0x32, 0x33]"

definition after_a_to_o :: input_state where
  "after_a_to_o =
    \<lparr>input_buffer = burst_a_to_o @ [0],
     prev_input_buffer = replicate 16 0,
     raw_input_buffer = burst_a_to_o @ [0],
     event_buffer = map (press_event True) burst_a_to_o @ replicate 16 0,
     event_buf_loc = Some 0\<rparr>"

definition after_aa :: input_state where
  "after_aa =
    \<lparr>input_buffer = [0x61, 0x61] @ replicate 14 0,
     prev_input_buffer = replicate 16 0,
     raw_input_buffer = [0x61, 0x61] @ replicate 14 0,
     event_buffer = [0x0161] @ replicate 30 0,
     event_buf_loc = Some 0\<rparr>"

definition after_aba :: input_state where
  "after_aba =
    \<lparr>input_buffer = [0x61, 0x62, 0x61] @ replicate 13 0,
     prev_input_buffer = replicate 16 0,
     raw_input_buffer = [0x61, 0x62, 0x61] @ replicate 13 0,
     event_buffer = [0x0162, 0x0161] @ replicate 29 0,
     event_buf_loc = Some 0\<rparr>"

definition after_ab :: input_state where
  "after_ab =
    \<lparr>input_buffer = [0x61, 0x62] @ replicate 14 0,
     prev_input_buffer = replicate 16 0,
     raw_input_buffer = [0x61, 0x62] @ replicate 14 0,
     event_buffer = [0x0161, 0x0162] @ replicate 29 0,
     event_buf_loc = Some 0\<rparr>"

definition after_ab_bc :: input_state where
  "after_ab_bc =
    \<lparr>input_buffer = [0x62, 0x63] @ replicate 14 0,
     prev_input_buffer = [0x61, 0x62] @ replicate 14 0,
     raw_input_buffer = [0x62, 0x63] @ replicate 14 0,
     event_buffer = [0x0163, 0x0061] @ replicate 29 0,
     event_buf_loc = Some 0\<rparr>"

definition after_p_to_3 :: input_state where
  "after_p_to_3 =
    \<lparr>input_buffer = burst_p_to_3 @ [0],
     prev_input_buffer = burst_a_to_o @ [0],
     raw_input_buffer = burst_p_to_3 @ [0],
     event_buffer =
       map (press_event True) burst_p_to_3 @ map (release_event True) burst_a_to_o @ [0],
     event_buf_loc = Some 0\<rparr>"

definition up_arrow_buffer :: "byte list" where
  "up_arrow_buffer = [0x1B, 0x5B, 0x41] @ replicate 13 0"

section \<open>Properties of the frame encoder\<close>

subsection \<open>Pixels and glyphs\<close>

lemma mask24: "(0x00FFFFFF :: 32 word) = mask 24"
  by (simp add: mask_eq_exp_minus_1)

lemma color_differs_iff:
  "color_differs c p \<longleftrightarrow>
    (color_r c \<noteq> color_r p \<or> color_g c \<noteq> color_g p \<or> color_b c \<noteq> color_b p)"
proof -
  have "((c XOR p) AND mask 24 = 0) \<longleftrightarrow> (\<forall>n<24. bit c n = bit p n)"
  proof -
    have "((c XOR p) AND mask 24 = 0) \<longleftrightarrow> (\<forall>n<32. n < 24 \<longrightarrow> bit c n = bit p n)"
      by (auto simp: bit_eq_iff bit_simps)
    also have "\<dots> \<longleftrightarrow> (\<forall>n<24. bit c n = bit p n)"
      by auto
    finally show ?thesis .
  qed
  also have "\<dots> \<longleftrightarrow> (\<forall>n<8. bit c (16 + n) = bit p (16 + n)) \<and> (\<forall>n<8. bit c (8 + n) = bit p (8 + n)) \<and> (\<forall>n<8. bit c n = bit p n)"
    (is "?L \<longleftrightarrow> ?R")
  proof
    assume ?L
    then show ?R by simp
  next
    assume a: ?R
    show ?L
    proof (rule allI, rule impI)
      fix n :: nat
      assume n: "n < 24"
      consider "n < 8" | "8 \<le> n" "n < 16" | "16 \<le> n" "n < 24" using n by linarith
      then show "bit c n = bit p n"
      proof cases
        case 1 then show ?thesis using a by simp
      next
        case 2
        then have "n - 8 < 8" "8 + (n - 8) = n" by simp_all
        then show ?thesis using a by metis
      next
        case 3
        then have "n - 16 < 8" "16 + (n - 16) = n" by simp_all
        then show ?thesis using a by metis
      qed
    qed
  qed
  also have "\<dots> \<longleftrightarrow> (color_r c = color_r p \<and> color_g c = color_g p \<and> color_b c = color_b p)"
    unfolding color_r_def color_g_def color_b_def
    by (simp add: bit_eq_iff bit_simps) 
  finally show ?thesis
    unfolding color_differs_def mask24 by blast
qed

lemma sentinel_channels:
  "color_r 0xFFFFFF00 = 0xFF" "color_g 0xFFFFFF00 = 0xFF" "color_b 0xFFFFFF00 = 0"
  by (simp_all add: color_r_def color_g_def color_b_def)

lemma grad_index_le: "grad_index p \<le> 7"
proof -
  have "unat (color_r p) < 256" "unat (color_g p) < 256" "unat (color_b p) < 256"
    using unsigned_less[of "color_r p", where 'a=nat] unsigned_less[of "color_g p", where 'a=nat]
      unsigned_less[of "color_b p", where 'a=nat] by simp_all
  then show ?thesis unfolding grad_index_def GRAD_LEN_def by simp
qed

lemma v_char_in_grad: "v_char p \<in> set grad"
proof -
  have "grad_index p < length grad" using grad_index_le[of p] by (simp add: grad_def)
  then show ?thesis unfolding v_char_def by simp
qed

lemma v_char_not_ESC: "v_char p \<noteq> ESC"
  using v_char_in_grad[of p] by (auto simp: grad_def ESC_def NUL_def)

lemma grad_nth_ramp: "i \<le> 7 \<Longrightarrow> grad ! i \<in> set ramp \<longleftrightarrow> i < 7"
proof -
  assume "i \<le> 7"
  then consider "i = 0" | "i = 1" | "i = 2" | "i = 3" | "i = 4" | "i = 5" | "i = 6" | "i = 7"
    by linarith
  then show ?thesis
    by cases (simp_all add: grad_def ramp_def NUL_def)
qed

lemma v_char_ramp_iff: "v_char p \<in> set ramp \<longleftrightarrow> channel_sum p < 671"
proof -
  have "grad_index p < 7 \<longleftrightarrow> channel_sum p < 671"
    unfolding grad_index_def channel_sum_def GRAD_LEN_def
    by (simp add: div_less_iff_less_mult) arith
  then show ?thesis
    unfolding v_char_def using grad_nth_ramp[OF grad_index_le[of p]] by simp
qed

lemma v_char_channel_sum: "channel_sum p = channel_sum q \<Longrightarrow> v_char p = v_char q"
  by (simp add: v_char_def grad_index_def channel_sum_def)

subsection \<open>The text fits the output buffer\<close>

lemma draw_pixel_length: "length (buf (draw_pixel acc scr d)) \<le> length (buf d) + 9"
  by (simp add: draw_pixel_def Let_def)

lemma draw_cols_length: "length (buf (draw_cols acc scr n d)) \<le> length (buf d) + 9 * n"
proof (induction n arbitrary: d)
  case 0
  then show ?case by simp
next
  case (Suc n)
  have "length (buf (draw_cols acc scr (Suc n) d))
      \<le> length (buf (draw_pixel acc scr d)) + 9 * n"
    using Suc.IH[of "draw_pixel acc scr d"] by simp
  then show ?case
    using draw_pixel_length[of acc scr d] by simp
qed

lemma draw_rows_length:
  "length (buf (draw_rows acc scr resx n d)) \<le> length (buf d) + n * (9 * resx + 1)"
proof (induction n arbitrary: d)
  case 0
  then show ?case by simp
next
  case (Suc n)
  let ?d1 = "draw_cols acc scr resx d"
  let ?d2 = "?d1\<lparr>buf := buf ?d1 @ [CHR 0x0A]\<rparr>"
  have "length (buf (draw_rows acc scr resx (Suc n) d)) \<le> length (buf ?d2) + n * (9 * resx + 1)"
    using Suc.IH[of ?d2] by (simp add: Let_def)
  moreover have "length (buf ?d2) \<le> length (buf d) + 9 * resx + 1"
    using draw_cols_length[of acc scr resx d] by simp
  ultimately show ?case
    by simp
qed

lemma output_buffer_size_exact:
  assumes "21 * resx * resy + resy + 4 < (2 :: nat) ^ 32"
  shows "output_buffer_size resx resy = 21 * resx * resy + resy + 4"
proof -
  have "(21 * word_of_nat resx * word_of_nat resy + word_of_nat resy + 4 :: 32 word)
      = word_of_nat (21 * resx * resy + resy + 4)"
    by simp
  then have "output_buffer_size resx resy
      = unat (word_of_nat (21 * resx * resy + resy + 4) :: 32 word)"
    by (simp only: output_buffer_size_def)
  also have "\<dots> = 21 * resx * resy + resy + 4"
    using assms
    by (simp add: unsigned_of_nat take_bit_nat_eq_self del: of_nat_add of_nat_mult of_nat_numeral)
  finally show ?thesis .
qed

lemma frame_text_fits:
  assumes "21 * resx * resy + resy + 4 < (2 :: nat) ^ 32"
  shows "length (frame_text acc resx resy scr) \<le> output_buffer_size resx resy"
proof -
  have "length (frame_text acc resx resy scr) \<le> resy * (9 * resx + 1) + 4"
    using draw_rows_length[of acc scr resx resy "\<lparr>color = 0xFFFFFF00, buf = [], pixel = 0\<rparr>"]
    by (simp add: frame_text_def sgr_reset_def)
  also have "\<dots> \<le> 21 * resx * resy + resy + 4"
    by (simp add: algebra_simps)
  finally show ?thesis
    unfolding output_buffer_size_exact[OF assms] .
qed

subsection \<open>Counting colour escapes\<close>

lemma sgr_code_props:
  assumes "code \<in> set sgr_codes"
  shows "length code = 4" and "ESC \<notin> set code" and "NUL \<notin> set code"
  using assms by (auto simp: sgr_codes_def ESC_def NUL_def)

lemma count_no_ESC: "ESC \<notin> set xs \<Longrightarrow> count_color_escapes (xs @ ys) = count_color_escapes ys"
  by (induction xs) (auto simp: is_color_escape_def)

lemma count_color_escape:
  assumes "code \<in> set sgr_codes"
  shows "count_color_escapes ([ESC, CHR ''[''] @ code @ ''m'' @ rest) = Suc (count_color_escapes rest)"
proof -
  have len: "length code = 4" and noesc: "ESC \<notin> set code"
    using sgr_code_props[OF assms] by simp_all
  have "is_color_escape (ESC # CHR ''['' # code @ ''m'' @ rest)"
    using assms len by (simp add: is_color_escape_def)
  moreover have "count_color_escapes ((CHR ''['' # code @ ''m'') @ rest) = count_color_escapes rest"
    by (rule count_no_ESC) (use noesc in \<open>simp add: ESC_def\<close>)
  ultimately show ?thesis by simp
qed

lemma count_clear_screen: "count_color_escapes (clear_screen @ rest) = count_color_escapes rest"
  by (simp add: clear_screen_def is_color_escape_def sgr_codes_def ESC_def)

lemma count_cursor_home: "count_color_escapes (cursor_home @ rest) = count_color_escapes rest"
  by (simp add: cursor_home_def is_color_escape_def sgr_codes_def ESC_def)

lemma count_sgr_reset: "count_color_escapes sgr_reset = 0"
  by (simp add: sgr_reset_def is_color_escape_def sgr_codes_def ESC_def)

subsection \<open>Frames of one colour\<close>

lemma draw_pixel_same:
  assumes "\<not> color_differs (color d) (scr (pixel d))"
  shows "draw_pixel acc scr d =
    d\<lparr>buf := buf d @ [v_char (scr (pixel d)), v_char (scr (pixel d))], pixel := Suc (pixel d)\<rparr>"
  using assms by (simp add: draw_pixel_def Let_def)

lemma draw_pixel_differs:
  assumes "color_differs (color d) (scr (pixel d))"
  shows "draw_pixel acc scr d =
    \<lparr>color = scr (pixel d),
     buf = buf d @ [ESC, CHR ''[''] @ take 4 (acc (scr (pixel d))) @ ''m''
             @ [v_char (scr (pixel d)), v_char (scr (pixel d))],
     pixel = Suc (pixel d)\<rparr>"
  using assms by (simp add: draw_pixel_def Let_def)

lemma draw_cols_same:
  assumes "\<forall>i. pixel d \<le> i \<and> i < pixel d + n \<longrightarrow> \<not> color_differs (color d) (scr i)"
  shows "\<exists>t. ESC \<notin> set t \<and>
    draw_cols acc scr n d = \<lparr>color = color d, buf = buf d @ t, pixel = pixel d + n\<rparr>"
  using assms
proof (induction n arbitrary: d)
  case 0
  have "draw_cols acc scr 0 d = \<lparr>color = color d, buf = buf d @ [], pixel = pixel d + 0\<rparr>" by simp
  moreover have "ESC \<notin> set []" by simp
  ultimately show ?case by blast
next
  case (Suc n)
  let ?v = "v_char (scr (pixel d))"
  let ?d1 = "\<lparr>color = color d, buf = buf d @ [?v, ?v], pixel = Suc (pixel d)\<rparr>"
  have step: "draw_pixel acc scr d = ?d1"
    using Suc.prems by (simp add: draw_pixel_same)
  have "\<forall>i. pixel ?d1 \<le> i \<and> i < pixel ?d1 + n \<longrightarrow> \<not> color_differs (color ?d1) (scr i)"
    using Suc.prems by simp
  from Suc.IH[OF this] obtain t where t: "ESC \<notin> set t"
    and eq: "draw_cols acc scr n ?d1 = \<lparr>color = color ?d1, buf = buf ?d1 @ t, pixel = pixel ?d1 + n\<rparr>"
    by blast
  have "ESC \<notin> set ([?v, ?v] @ t)" using t v_char_not_ESC[of "scr (pixel d)"] by auto
  moreover have "draw_cols acc scr (Suc n) d =
      \<lparr>color = color d, buf = buf d @ ([?v, ?v] @ t), pixel = pixel d + Suc n\<rparr>"
    using step eq by simp
  ultimately show ?case by blast
qed

lemma draw_rows_same:
  assumes "\<forall>i. pixel d \<le> i \<and> i < pixel d + n * resx \<longrightarrow> \<not> color_differs (color d) (scr i)"
  shows "\<exists>t. ESC \<notin> set t \<and>
    draw_rows acc scr resx n d = \<lparr>color = color d, buf = buf d @ t, pixel = pixel d + n * resx\<rparr>"
  using assms
proof (induction n arbitrary: d)
  case 0
  have "draw_rows acc scr resx 0 d = \<lparr>color = color d, buf = buf d @ [], pixel = pixel d + 0 * resx\<rparr>" by simp
  moreover have "ESC \<notin> set []" by simp
  ultimately show ?case by blast
next
  case (Suc n)
  have "\<forall>i. pixel d \<le> i \<and> i < pixel d + resx \<longrightarrow> \<not> color_differs (color d) (scr i)"
    using Suc.prems by simp
  from draw_cols_same[OF this, of acc] obtain t1 where t1: "ESC \<notin> set t1"
    and cols: "draw_cols acc scr resx d = \<lparr>color = color d, buf = buf d @ t1, pixel = pixel d + resx\<rparr>"
    by blast
  let ?d2 = "\<lparr>color = color d, buf = buf d @ t1 @ [CHR 0x0A], pixel = pixel d + resx\<rparr>"
  have "\<forall>i. pixel ?d2 \<le> i \<and> i < pixel ?d2 + n * resx \<longrightarrow> \<not> color_differs (color ?d2) (scr i)"
    using Suc.prems by simp
  from Suc.IH[OF this] obtain t2 where t2: "ESC \<notin> set t2"
    and rows: "draw_rows acc scr resx n ?d2 =
      \<lparr>color = color ?d2, buf = buf ?d2 @ t2, pixel = pixel ?d2 + n * resx\<rparr>"
    by blast
  have "ESC \<notin> set (t1 @ [CHR 0x0A] @ t2)" using t1 t2 by (simp add: ESC_def)
  moreover have "draw_rows acc scr resx (Suc n) d =
      \<lparr>color = color d, buf = buf d @ (t1 @ [CHR 0x0A] @ t2), pixel = pixel d + Suc n * resx\<rparr>"
    using cols rows by (simp add: Let_def ac_simps)
  ultimately show ?case by blast
qed

lemma uniform_frame_text:
  assumes pos: "0 < resx" "0 < resy"
    and uni: "\<forall>i<resx * resy. \<not> color_differs (scr 0) (scr i)"
    and first: "color_differs 0xFFFFFF00 (scr 0)"
  shows "\<exists>t. ESC \<notin> set t \<and>
    frame_text acc resx resy scr = [ESC, CHR ''[''] @ take 4 (acc (scr 0)) @ ''m'' @ t @ sgr_reset"
proof -
  obtain x y where x: "resx = Suc x" and y: "resy = Suc y"
    using pos by (cases resx; cases resy) simp_all
  let ?v = "v_char (scr 0)"
  let ?E = "[ESC, CHR ''[''] @ take 4 (acc (scr 0)) @ ''m''"
  let ?d0 = "\<lparr>color = 0xFFFFFF00, buf = [], pixel = 0\<rparr>"
  let ?d1 = "\<lparr>color = scr 0, buf = ?E @ [?v, ?v], pixel = Suc 0\<rparr>"
  have d1: "draw_pixel acc scr ?d0 = ?d1"
    using first by (simp add: draw_pixel_differs)
  have le: "Suc x \<le> resx * resy" using x y by simp
  have "\<forall>i. Suc 0 \<le> i \<and> i < Suc 0 + x \<longrightarrow> \<not> color_differs (scr 0) (scr i)"
    using uni le by simp
  then have "\<forall>i. pixel ?d1 \<le> i \<and> i < pixel ?d1 + x \<longrightarrow> \<not> color_differs (color ?d1) (scr i)"
    by simp
  from draw_cols_same[OF this, of acc] obtain t1 where t1: "ESC \<notin> set t1"
    and cols: "draw_cols acc scr x ?d1 = \<lparr>color = scr 0, buf = (?E @ [?v, ?v]) @ t1, pixel = Suc 0 + x\<rparr>"
    by auto
  let ?d2 = "\<lparr>color = scr 0, buf = ?E @ [?v, ?v] @ t1 @ [CHR 0x0A], pixel = resx\<rparr>"
  have "draw_cols acc scr resx ?d0 = draw_cols acc scr x ?d1"
    unfolding x draw_cols.simps d1 ..
  then have row1: "(let d = draw_cols acc scr resx ?d0 in d\<lparr>buf := buf d @ [CHR 0x0A]\<rparr>) = ?d2"
    unfolding cols by (simp add: x)
  have py: "resx + y * resx = resx * resy" using y by simp
  have "\<forall>i. resx \<le> i \<and> i < resx + y * resx \<longrightarrow> \<not> color_differs (scr 0) (scr i)"
    unfolding py using uni by simp
  then have "\<forall>i. pixel ?d2 \<le> i \<and> i < pixel ?d2 + y * resx \<longrightarrow> \<not> color_differs (color ?d2) (scr i)"
    by simp
  from draw_rows_same[OF this, of acc] obtain t2 where t2: "ESC \<notin> set t2"
    and rows: "draw_rows acc scr resx y ?d2 =
      \<lparr>color = scr 0, buf = (?E @ [?v, ?v] @ t1 @ [CHR 0x0A]) @ t2, pixel = resx + y * resx\<rparr>"
    by auto
  have "draw_rows acc scr resx resy ?d0 = draw_rows acc scr resx y ?d2"
    unfolding y draw_rows.simps row1 ..
  then have "frame_text acc resx resy scr =
      [ESC, CHR ''[''] @ take 4 (acc (scr 0)) @ ''m'' @ ([?v, ?v] @ t1 @ [CHR 0x0A] @ t2) @ sgr_reset"
    unfolding frame_text_def rows by simp
  moreover have "ESC \<notin> set ([?v, ?v] @ t1 @ [CHR 0x0A] @ t2)"
    using t1 t2 v_char_not_ESC[of "scr 0"] by (auto simp: ESC_def)
  ultimately show ?thesis by (intro exI[of _ "[?v, ?v] @ t1 @ [CHR 0x0A] @ t2"] conjI)
qed

lemma takeWhile_NUL_padding:
  assumes "set zs \<subseteq> {NUL}"
  shows "takeWhile (\<lambda>c. c \<noteq> NUL) (xs @ zs) = takeWhile (\<lambda>c. c \<noteq> NUL) xs"
proof -
  have "takeWhile (\<lambda>c. c \<noteq> NUL) zs = []"
    using assms by (cases zs) auto
  then show ?thesis by (induction xs) auto
qed

lemma count_uniform_text:
  assumes code: "code \<in> set sgr_codes" and t: "ESC \<notin> set t" and zs: "set zs \<subseteq> {NUL}"
  shows "count_color_escapes
    (takeWhile (\<lambda>c. c \<noteq> NUL) (([ESC, CHR ''[''] @ code @ ''m'' @ t @ sgr_reset) @ zs)) = 1"
proof -
  let ?P = "\<lambda>c. c \<noteq> NUL"
  let ?E = "[ESC, CHR ''[''] @ code @ ''m''"
  have E: "\<forall>c\<in>set ?E. ?P c"
    using sgr_code_props(3)[OF code] by (auto simp: ESC_def NUL_def)
  have "takeWhile ?P ((?E @ t @ sgr_reset) @ zs) = takeWhile ?P (?E @ (t @ sgr_reset))"
    using takeWhile_NUL_padding[OF zs, of "?E @ t @ sgr_reset"] by simp
  also have "\<dots> = ?E @ takeWhile ?P (t @ sgr_reset)"
    using E by (intro takeWhile_append2) blast
  finally have eq: "takeWhile ?P ((?E @ t @ sgr_reset) @ zs) = ?E @ takeWhile ?P (t @ sgr_reset)" .
  have "count_color_escapes (takeWhile ?P (t @ sgr_reset)) = 0"
  proof (cases "NUL \<in> set t")
    case True
    then have "takeWhile ?P (t @ sgr_reset) = takeWhile ?P t"
      by (intro takeWhile_append1[where x = NUL]) simp_all
    moreover have "ESC \<notin> set (takeWhile ?P t)"
      using t by (auto dest: set_takeWhileD)
    ultimately show ?thesis using count_no_ESC[of "takeWhile ?P t" "[]"] by simp
  next
    case False
    then have "takeWhile ?P (t @ sgr_reset) = t @ sgr_reset"
      by (auto simp: takeWhile_eq_all_conv sgr_reset_def ESC_def NUL_def)
    then have "count_color_escapes (takeWhile ?P (t @ sgr_reset)) = count_color_escapes (t @ sgr_reset)"
      by (rule arg_cong)
    also have "\<dots> = count_color_escapes sgr_reset"
      by (rule count_no_ESC[OF t])
    also have "\<dots> = 0"
      by (rule count_sgr_reset)
    finally show ?thesis .
  qed
  note rest = this
  have "count_color_escapes (takeWhile ?P ((?E @ t @ sgr_reset) @ zs))
      = count_color_escapes (?E @ takeWhile ?P (t @ sgr_reset))"
    using eq by (rule arg_cong)
  also have "\<dots> = Suc (count_color_escapes (takeWhile ?P (t @ sgr_reset)))"
    using count_color_escape[OF code, of "takeWhile ?P (t @ sgr_reset)"]
    by (simp only: append_assoc)
  finally show ?thesis
    using rest by simp
qed

lemma DG_DrawFrame_uniform:
  assumes pos: "0 < resx" "0 < resy"
    and codes: "\<forall>p. acc p \<in> set sgr_codes"
    and uni: "uniform_frame resx resy scr"
    and first: "\<not> is_sentinel_rgb (scr 0)"
    and zero: "set (output_buffer st) \<subseteq> {NUL}"
  shows "\<exists>out st'. DG_DrawFrame acc resx resy scr False st = Inr (out, st')
    \<and> count_color_escapes out = 1 \<and> set (output_buffer st') \<subseteq> {NUL} \<and> \<not> first_frame st'"
proof -
  let ?code = "acc (scr 0)"
  have code: "?code \<in> set sgr_codes" using codes by simp
  then have take4: "take 4 ?code = ?code" using sgr_code_props(1)[of ?code] by simp
  have u: "\<forall>i<resx * resy. \<not> color_differs (scr 0) (scr i)"
    using uni by (simp add: uniform_frame_def color_differs_iff)
  have f: "color_differs 0xFFFFFF00 (scr 0)"
    using first by (auto simp: is_sentinel_rgb_def color_differs_iff sentinel_channels)
  from uniform_frame_text[OF pos u f, of acc] obtain t where t: "ESC \<notin> set t"
    and ft: "frame_text acc resx resy scr = [ESC, CHR ''[''] @ ?code @ ''m'' @ t @ sgr_reset"
    unfolding take4 by blast
  let ?text = "frame_text acc resx resy scr"
  let ?zs = "drop (length ?text) (output_buffer st)"
  let ?out = "(if first_frame st then clear_screen else []) @ cursor_home
      @ takeWhile (\<lambda>c. c \<noteq> NUL) (?text @ ?zs)"
  let ?st' = "\<lparr>first_frame = False,
      output_buffer = replicate (length ?text) NUL @ drop (length ?text) (?text @ ?zs)\<rparr>"
  have zs: "set ?zs \<subseteq> {NUL}"
    using zero set_drop_subset[of "length ?text" "output_buffer st"] by blast
  have run: "DG_DrawFrame acc resx resy scr False st = Inr (?out, ?st')"
    by (simp add: DG_DrawFrame_def Let_def)
  have "count_color_escapes (takeWhile (\<lambda>c. c \<noteq> NUL) (?text @ ?zs)) = 1"
    using count_uniform_text[OF code t zs] by (simp only: ft)
  then have cnt: "count_color_escapes ?out = 1"
    by (simp add: count_clear_screen count_cursor_home)
  have "set (output_buffer ?st') \<subseteq> {NUL}"
    using zs by auto
  then show ?thesis
    using run cnt by (intro exI[of _ ?out] exI[of _ ?st']) simp
qed


lemma first_pixel_emits_iff: "color_differs 0xFFFFFF00 p \<longleftrightarrow> \<not> is_sentinel_rgb p"
  by (auto simp: color_differs_iff is_sentinel_rgb_def sentinel_channels)

subsection \<open>Claims about the frame encoder\<close>

text \<open>
  Claim C2 says that two consecutive renders of the same one-coloured frame emit one
  colour escape in total, none of them in the second render, because the colour state
  would persist. In the code \<^verbatim>\<open>color\<close> is a local variable that every call sets to
  \<^verbatim>\<open>0xFFFFFF00\<close> again. For a red frame of one pixel each of the two renders emits
  \<^verbatim>\<open>ESC[1;31m\<close>: two escapes in total, one of them in the second render.
\<close>

theorem two_red_frames_counterexample:
  "DG_DrawFrame red_code 1 1 red_screen False (DG_Init_frame 1 1 zero_heap)
      = Inr (clear_screen @ cursor_home @ [ESC] @ ''[1;31m--'' @ [CHR 0x0A] @ sgr_reset,
             later_frames)
    \<and> DG_DrawFrame red_code 1 1 red_screen False later_frames
      = Inr (cursor_home @ [ESC] @ ''[1;31m--'' @ [CHR 0x0A] @ sgr_reset, later_frames)
    \<and> count_color_escapes
        (clear_screen @ cursor_home @ [ESC] @ ''[1;31m--'' @ [CHR 0x0A] @ sgr_reset) = 1
    \<and> count_color_escapes (cursor_home @ [ESC] @ ''[1;31m--'' @ [CHR 0x0A] @ sgr_reset) = 1"
  by code_simp

text \<open>
  Claim C2, amended: every render of a frame whose pixels all have the same red, green
  and blue, other than those of the initial value \<^verbatim>\<open>0xFFFFFF00\<close>, emits exactly one
  colour-escape sequence, so two consecutive renders of it emit one each. The frame has
  at least one pixel, \<^verbatim>\<open>rgb_to_color\<close> returns one of its fourteen literals, the checked
  \<^verbatim>\<open>fputs\<close> succeeds, and the output buffer holds NUL bytes before the first render (the
  code clears what it wrote after every render).
\<close>

theorem uniform_frame_one_escape_per_render:
  assumes "0 < resx" and "0 < resy"
    and "\<forall>p. acc p \<in> set sgr_codes"
    and "uniform_frame resx resy scr"
    and "\<not> is_sentinel_rgb (scr 0)"
    and "set (output_buffer st) \<subseteq> {NUL}"
  shows "\<exists>out1 st1 out2 st2.
      DG_DrawFrame acc resx resy scr False st = Inr (out1, st1)
    \<and> DG_DrawFrame acc resx resy scr False st1 = Inr (out2, st2)
    \<and> count_color_escapes out1 = 1 \<and> count_color_escapes out2 = 1"
proof -
  from DG_DrawFrame_uniform[OF assms] obtain out1 st1
    where r1: "DG_DrawFrame acc resx resy scr False st = Inr (out1, st1)"
      and c1: "count_color_escapes out1 = 1"
      and z1: "set (output_buffer st1) \<subseteq> {NUL}"
    by blast
  from DG_DrawFrame_uniform[OF assms(1-5) z1] obtain out2 st2
    where r2: "DG_DrawFrame acc resx resy scr False st1 = Inr (out2, st2)"
      and c2: "count_color_escapes out2 = 1"
    by blast
  show ?thesis
    using r1 r2 c1 c2 by blast
qed

theorem uniform_frame_one_escape_per_render_witness:
  "0 < (1 :: nat)
    \<and> (\<forall>p. red_code p \<in> set sgr_codes)
    \<and> uniform_frame 1 1 red_screen
    \<and> \<not> is_sentinel_rgb (red_screen 0)
    \<and> set (output_buffer (DG_Init_frame 1 1 zero_heap)) \<subseteq> {NUL}
    \<and> (\<exists>out1 st1 out2 st2.
          DG_DrawFrame red_code 1 1 red_screen False (DG_Init_frame 1 1 zero_heap) = Inr (out1, st1)
        \<and> DG_DrawFrame red_code 1 1 red_screen False st1 = Inr (out2, st2)
        \<and> count_color_escapes out1 = 1 \<and> count_color_escapes out2 = 1)"
proof -
  have pos: "0 < (1 :: nat)"
    by simp
  have codes: "\<forall>p. red_code p \<in> set sgr_codes"
    by (simp add: red_code_def sgr_codes_def)
  have uni: "uniform_frame 1 1 red_screen"
    by (simp add: uniform_frame_def red_screen_def)
  have first: "\<not> is_sentinel_rgb (red_screen 0)"
    by (simp add: is_sentinel_rgb_def red_screen_def color_r_def color_g_def color_b_def)
  have zero: "set (output_buffer (DG_Init_frame 1 1 zero_heap)) \<subseteq> {NUL}"
    by (auto simp: DG_Init_frame_def zero_heap_def)
  show ?thesis
    using uniform_frame_one_escape_per_render[OF pos pos codes uni first zero]
      pos codes uni first zero
    by blast
qed

text \<open>
  Claim C3 says that the glyph of every pixel is one of the seven characters of the
  ramp. Evaluated at a white pixel (red, green and blue all 255) the code computes
  \<^verbatim>\<open>765 * 8 / 766 = 7\<close> and reads \<^verbatim>\<open>grad[7]\<close>, the NUL that ends the string literal,
  which is none of the seven. (\<open>v_char_ramp_iff\<close>: the glyph is in the ramp exactly for
  channel sums below 671; \<open>v_char_channel_sum\<close>: equal sums give equal glyphs.)
\<close>

theorem white_pixel_glyph_outside_ramp:
  "channel_sum 0x00FFFFFF = 765 \<and> grad_index 0x00FFFFFF = 7
    \<and> v_char 0x00FFFFFF = NUL \<and> v_char 0x00FFFFFF \<notin> set ramp"
  by code_simp

text \<open>
  Claim C4 says that the first pixel of the first frame emits a colour escape whatever
  its colour. Evaluated at a first frame of one yellow pixel (red 255, green 255, blue
  0) the code emits none: the comparison masks the alpha byte away, and what is left
  of the initial value \<^verbatim>\<open>0xFFFFFF00\<close> is this very colour. (\<open>first_pixel_emits_iff\<close>: it
  is the only one.)
\<close>

theorem yellow_first_pixel_no_escape:
  "is_sentinel_rgb (yellow_screen 0)
    \<and> DG_DrawFrame yellow_code 1 1 yellow_screen False (DG_Init_frame 1 1 zero_heap)
      = Inr (clear_screen @ cursor_home @ ''xx'' @ [CHR 0x0A] @ sgr_reset, later_frames)
    \<and> count_color_escapes (clear_screen @ cursor_home @ ''xx'' @ [CHR 0x0A] @ sgr_reset) = 0"
  by code_simp

section \<open>Properties of the input event deriver\<close>

subsection \<open>Event words\<close>

lemma word16_FF: "(0xFF :: 16 word) = mask 8"
  by (simp add: mask_eq_exp_minus_1)

lemma word32_FF: "(0xFF :: 32 word) = mask 8"
  by (simp add: mask_eq_exp_minus_1)

lemma word32_100: "(0x0100 :: 32 word) = 2 ^ 8"
  by simp

lemma event_key_press [simp]: "event_key (press_event sg c) = c"
  unfolding event_key_def press_event_def char_to_int_def word16_FF word32_100
  by (rule bit_word_eqI) (auto simp: bit_simps simp del: power_numeral)

lemma event_key_release [simp]: "event_key (release_event sg c) = c"
  unfolding event_key_def release_event_def char_to_int_def word16_FF word32_FF
  by (rule bit_word_eqI) (auto simp: bit_simps)

lemma event_pressed_press [simp]: "event_pressed (press_event sg c)"
proof -
  have "bit (event_pressed_value (press_event sg c)) 0"
    unfolding event_pressed_value_def press_event_def char_to_int_def word32_100
    by (auto simp: bit_simps simp del: power_numeral)
  then show ?thesis
    unfolding event_pressed_def by auto
qed

lemma event_pressed_release [simp]: "\<not> event_pressed (release_event sg c)"
  unfolding event_pressed_def event_pressed_value_def release_event_def char_to_int_def word32_FF
  by (auto simp: bit_eq_iff bit_simps)

lemma press_event_nonzero [simp]: "press_event sg c \<noteq> 0"
  using event_pressed_press[of sg c]
  unfolding event_pressed_def event_pressed_value_def by auto

lemma release_event_nonzero: "c \<noteq> 0 \<Longrightarrow> release_event sg c \<noteq> 0"
  using event_key_release[of sg c] unfolding event_key_def by auto

subsection \<open>Scans and held keys\<close>

lemma held_keys_Nil [simp]: "held_keys [] = []"
  by (simp add: held_keys_def)

lemma held_keys_Cons [simp]: "held_keys (c # cs) = (if c = 0 then [] else c # held_keys cs)"
  by (simp add: held_keys_def)

lemma held_keys_nonzero: "0 \<notin> set (held_keys b)"
  by (induction b) auto

lemma found_in_iff: "found_in k b \<longleftrightarrow> k \<in> set (held_keys b)"
  by (induction b) auto

lemma length_held_keys_le: "length (held_keys b) \<le> length b"
  by (induction b) auto

lemma length_held_keys_less: "0 \<in> set b \<Longrightarrow> length (held_keys b) < length b"
  by (induction b) (auto simp: le_imp_less_Suc length_held_keys_le)

subsection \<open>The two passes\<close>

lemma pressed_events_keys:
  "pressed_events sg prev cur = map (press_event sg) (map event_key (pressed_events sg prev cur))"
  by (induction cur) auto

lemma depressed_events_keys:
  "depressed_events sg cur prev = map (release_event sg) (map event_key (depressed_events sg cur prev))"
  by (induction prev) auto

lemma set_pressed_keys:
  "set (map event_key (pressed_events sg prev cur)) = set (held_keys cur) - set (held_keys prev)"
  by (induction cur) (auto simp: found_in_iff)

lemma distinct_pressed_keys: "distinct (map event_key (pressed_events sg prev cur))"
proof (induction cur)
  case Nil
  then show ?case by simp
next
  case (Cons c rest)
  have "c \<notin> set (held_keys rest) \<Longrightarrow> c \<notin> set (map event_key (pressed_events sg prev rest))"
    using set_pressed_keys[of sg prev rest] by blast
  then show ?case using Cons by (auto simp: found_in_iff)
qed

lemma depressed_keys:
  "map event_key (depressed_events sg cur prev)
    = filter (\<lambda>k. k \<notin> set (held_keys cur)) (held_keys prev)"
  by (induction prev) (auto simp: found_in_iff)

lemma pressed_events_pressed: "e \<in> set (pressed_events sg prev cur) \<Longrightarrow> event_pressed e \<and> e \<noteq> 0"
  by (induction cur) (auto split: if_splits)

lemma depressed_events_released:
  "e \<in> set (depressed_events sg cur prev) \<Longrightarrow> \<not> event_pressed e \<and> e \<noteq> 0"
  by (induction prev) (auto split: if_splits simp: release_event_nonzero)

lemma length_pressed_events: "length (pressed_events sg prev cur) \<le> length (held_keys cur)"
  by (induction cur) auto

lemma length_depressed_events: "length (depressed_events sg cur prev) \<le> length (held_keys prev)"
  by (induction prev) auto

subsection \<open>The decoder\<close>

lemma convertToDoomKey_step:
  assumes nz: "c \<noteq> 0" and nul: "0 \<in> set rest"
  shows "\<exists>k used raw'. convertToDoomKey K (c # rest) = Some (k, raw')
    \<and> c # rest = used @ raw' \<and> used \<noteq> [] \<and> 0 \<notin> set used"
proof (cases "c = 0x1B")
  case False
  then have "\<exists>k. convertToDoomKey K (c # rest) = Some (k, rest)"
    by (simp add: convertToDoomKey_def)
  then obtain k where "convertToDoomKey K (c # rest) = Some (k, rest)" ..
  moreover have "c # rest = [c] @ rest" "[c] \<noteq> []" "0 \<notin> set [c]"
    using nz by simp_all
  ultimately show ?thesis by blast
next
  case esc: True
  obtain c1 buf2 where rest: "rest = c1 # buf2"
    using nul by (cases rest) auto
  show ?thesis
  proof (cases "c1 = 0x5B")
    case False
    then have "convertToDoomKey K (c # rest) = Some (KEY_ESCAPE K, rest)"
      using esc rest by (simp add: convertToDoomKey_def)
    moreover have "c # rest = [c] @ rest" "[c] \<noteq> []" "0 \<notin> set [c]"
      using nz by simp_all
    ultimately show ?thesis by blast
  next
    case bracket: True
    then have "0 \<in> set buf2"
      using nul rest by auto
    then obtain c2 buf3 where buf2: "buf2 = c2 # buf3"
      by (cases buf2) auto
    show ?thesis
    proof (cases "c2 \<in> {0x41, 0x42, 0x43, 0x44}")
      case True
      then have "\<exists>k. convertToDoomKey K (c # rest) = Some (k, buf3)"
        using esc rest bracket buf2 by (auto simp: convertToDoomKey_def)
      then obtain k where "convertToDoomKey K (c # rest) = Some (k, buf3)" ..
      moreover have "c # rest = [c, c1, c2] @ buf3" "[c, c1, c2] \<noteq> []" "0 \<notin> set [c, c1, c2]"
        using nz rest buf2 bracket True by auto
      ultimately show ?thesis by blast
    next
      case False
      then have "convertToDoomKey K (c # rest) = Some (KEY_ESCAPE K, buf2)"
        using esc rest bracket buf2 by (simp add: convertToDoomKey_def)
      moreover have "c # rest = [c, c1] @ buf2" "[c, c1] \<noteq> []" "0 \<notin> set [c, c1]"
        using nz rest bracket by auto
      ultimately show ?thesis by blast
    qed
  qed
qed

lemma held_keys_append_nonzero: "0 \<notin> set used \<Longrightarrow> held_keys (used @ b) = used @ held_keys b"
  by (induction used) auto

declare decode_keys.simps [simp del]

lemma decode_keys_bounded:
  assumes "0 \<in> set raw" and "loc + length (held_keys raw) \<le> length ib"
  shows "\<exists>ib' n. decode_keys K raw ib loc = Some (ib', n)
    \<and> loc \<le> n \<and> n \<le> loc + length (held_keys raw)
    \<and> length ib' = length ib
    \<and> (\<forall>i. n \<le> i \<longrightarrow> ib' ! i = ib ! i)"
  using assms
proof (induction K raw ib loc rule: decode_keys.induct)
  case (1 K raw ib loc)
  from "1.prems"(1) obtain c rest where raw: "raw = c # rest"
    by (cases raw) auto
  show ?case
  proof (cases "c = 0")
    case True
    then have "decode_keys K raw ib loc = Some (ib, loc)"
      using raw by (subst decode_keys.simps) simp
    then show ?thesis
      by simp
  next
    case False
    then have "0 \<in> set rest"
      using "1.prems"(1) raw by auto
    from convertToDoomKey_step[OF False this, of K] obtain k used raw'
      where conv: "convertToDoomKey K raw = Some (k, raw')"
        and split: "raw = used @ raw'" and used: "used \<noteq> []" "0 \<notin> set used"
      unfolding raw by blast
    have held: "held_keys raw = used @ held_keys raw'"
      unfolding split using used(2) by (rule held_keys_append_nonzero)
    have nul': "0 \<in> set raw'"
      using "1.prems"(1) split used(2) by auto
    have len: "length (held_keys raw) = length used + length (held_keys raw')"
        "Suc 0 \<le> length used"
      using used(1) held by (simp_all add: Suc_le_eq)
    have inb: "loc < length ib"
      using "1.prems"(2) len by linarith
    have "Suc loc + length (held_keys raw') \<le> length ib"
      using "1.prems"(2) len by linarith
    then have room: "Suc loc + length (held_keys raw') \<le> length (ib[loc := k])"
      by simp
    from "1.IH"[OF raw False conv refl inb nul' room]
    obtain ib' n where rec: "decode_keys K raw' (ib[loc := k]) (Suc loc) = Some (ib', n)"
      and n: "Suc loc \<le> n" "n \<le> Suc loc + length (held_keys raw')"
      and l: "length ib' = length (ib[loc := k])"
      and beyond: "\<forall>i. n \<le> i \<longrightarrow> ib' ! i = ib[loc := k] ! i"
      by blast
    have "decode_keys K raw ib loc = Some (ib', n)"
      using raw False conv inb rec by (subst decode_keys.simps) simp
    moreover have "loc \<le> n" "n \<le> loc + length (held_keys raw)"
      using n len by linarith+
    moreover have "length ib' = length ib"
      using l by simp
    moreover have "\<forall>i. n \<le> i \<longrightarrow> ib' ! i = ib ! i"
      using beyond n(1) by auto
    ultimately show ?thesis by blast
  qed
qed

subsection \<open>A poll that returns\<close>

lemma takeWhile_events:
  assumes "\<forall>e\<in>set evs. e \<noteq> (0 :: 16 word)"
  shows "takeWhile (\<lambda>e. e \<noteq> 0) (evs @ replicate n 0) = evs"
proof -
  have "takeWhile (\<lambda>e. e \<noteq> (0 :: 16 word)) (replicate n 0) = []"
    by (cases n) simp_all
  then show ?thesis
    using assms by (simp add: takeWhile_append2)
qed

lemma length_held_keys_read:
  "length (held_keys (got @ replicate n 0)) \<le> length got"
proof -
  have "held_keys (replicate n 0) = []"
    by (cases n) simp_all
  then show ?thesis
    by (induction got) auto
qed

lemma nul_terminated:
  assumes "length b = INPUT_BUFFER_LEN" and "last b = 0"
  shows "0 \<in> set b" and "length (held_keys b) \<le> INPUT_BUFFER_LEN - 1"
proof -
  have "b \<noteq> []"
    using assms(1) by (auto simp: INPUT_BUFFER_LEN_def)
  then show "0 \<in> set b"
    using assms(2) last_in_set[of b] by auto
  then show "length (held_keys b) \<le> INPUT_BUFFER_LEN - 1"
    using length_held_keys_less[of b] assms(1) by simp
qed

lemma DG_ReadInput_cases:
  "DG_ReadInput sg K env tio st =
    (if tcgetattr_fails env then (Inl (I_Error ''DG_DrawFrame: tcgetattr error %d''), tio)
     else if tcsetattr_newt_fails env then (Inl (I_Error ''DG_DrawFrame: tcsetattr error %d''), tio)
     else (case read_result env of
         None \<Rightarrow> (Inl (I_Error ''DG_DrawFrame: read error %d''), raw_mode tio)
       | Some bytes \<Rightarrow>
           if tcsetattr_oldt_fails env
             then (Inl (I_Error ''DG_DrawFrame: tcsetattr error %d''), raw_mode tio)
           else if tcflush_fails env
             then (Inl (I_Error ''DG_DrawFrame: tcflush error %d''), tio)
           else (construct_events sg K (poll_state st bytes), tio)))"
  by (simp add: DG_ReadInput_def poll_state_def Let_def split: option.splits)

lemma construct_events_poll_state:
  assumes ok: "input_ok st"
  shows "\<exists>ib n. decode_keys K (raw_input_buffer (poll_state st bytes)) (replicate INPUT_BUFFER_LEN 0) 0
        = Some (ib, n)
    \<and> n \<le> INPUT_BUFFER_LEN - 1
    \<and> length ib = INPUT_BUFFER_LEN \<and> last ib = 0
    \<and> construct_events sg K (poll_state st bytes) =
        Inr ((poll_state st bytes)\<lparr>input_buffer := ib,
          event_buffer :=
            (pressed_events sg (input_buffer st) ib @ depressed_events sg ib (input_buffer st))
            @ replicate (EVENT_BUFFER_LEN
                - length (pressed_events sg (input_buffer st) ib @ depressed_events sg ib (input_buffer st))) 0\<rparr>)
    \<and> length (pressed_events sg (input_buffer st) ib @ depressed_events sg ib (input_buffer st))
        \<le> EVENT_BUFFER_LEN - 1"
proof -
  define got where "got = take (INPUT_BUFFER_LEN - 1) bytes"
  let ?raw = "raw_input_buffer (poll_state st bytes)"
  let ?zeros = "replicate INPUT_BUFFER_LEN (0 :: byte)"
  have got: "length got \<le> 15"
    by (simp add: got_def INPUT_BUFFER_LEN_def)
  have raw: "?raw = got @ replicate (16 - length got) 0"
    by (simp add: poll_state_def got_def INPUT_BUFFER_LEN_def)
  have "16 - length got \<noteq> 0"
    using got by linarith
  then have nul: "0 \<in> set ?raw"
    unfolding raw by simp
  have held_raw: "length (held_keys ?raw) \<le> 15"
    unfolding raw using length_held_keys_read[of got "16 - length got"] got by linarith
  then have room: "0 + length (held_keys ?raw) \<le> length ?zeros"
    by (simp add: INPUT_BUFFER_LEN_def)
  from decode_keys_bounded[OF nul room, of K] obtain ib n
    where dec: "decode_keys K ?raw ?zeros 0 = Some (ib, n)"
      and n: "n \<le> 0 + length (held_keys ?raw)"
      and len: "length ib = length ?zeros"
      and beyond: "\<forall>i. n \<le> i \<longrightarrow> ib ! i = ?zeros ! i"
    by blast
  have n15: "n \<le> 15"
    using n held_raw by simp
  have len16: "length ib = 16"
    using len by (simp add: INPUT_BUFFER_LEN_def)
  have "ib ! 15 = 0"
    using beyond n15 by (simp add: INPUT_BUFFER_LEN_def)
  moreover have "ib \<noteq> []"
    using len16 by auto
  then have "last ib = ib ! (length ib - 1)"
    by (rule last_conv_nth)
  ultimately have last: "last ib = 0"
    using len16 by simp
  have held_ib: "length (held_keys ib) \<le> 15"
    using nul_terminated[of ib] len last by (simp add: INPUT_BUFFER_LEN_def)
  have held_prev: "length (held_keys (input_buffer st)) \<le> 15"
    using nul_terminated[of "input_buffer st"] ok by (simp add: input_ok_def INPUT_BUFFER_LEN_def)
  let ?evs = "pressed_events sg (input_buffer st) ib @ depressed_events sg ib (input_buffer st)"
  have evs: "length ?evs \<le> 30"
    using length_pressed_events[of sg "input_buffer st" ib]
      length_depressed_events[of sg ib "input_buffer st"] held_ib held_prev
    by simp
  have "construct_events sg K (poll_state st bytes) =
      Inr ((poll_state st bytes)\<lparr>input_buffer := ib,
        event_buffer := ?evs @ replicate (EVENT_BUFFER_LEN - length ?evs) 0\<rparr>)"
    using dec evs
    by (simp add: construct_events_def poll_state_def Let_def EVENT_BUFFER_LEN_def INPUT_BUFFER_LEN_def)
  then show ?thesis
    using dec n15 len16 last evs
    by (simp add: EVENT_BUFFER_LEN_def INPUT_BUFFER_LEN_def)
qed

lemma DG_ReadInput_Inr:
  assumes ok: "input_ok st" and run: "DG_ReadInput sg K env tio st = (Inr st', tio')"
  shows "input_ok st'" and "tio' = tio"
    and "event_queue st' =
      pressed_events sg (input_buffer st) (input_buffer st')
      @ depressed_events sg (input_buffer st') (input_buffer st)"
    and "length (event_queue st') \<le> EVENT_BUFFER_LEN - 1"
proof -
  from run obtain bytes where st': "construct_events sg K (poll_state st bytes) = Inr st'"
    and tio: "tio' = tio"
    unfolding DG_ReadInput_cases by (auto split: if_splits option.splits)
  from construct_events_poll_state[OF ok, of K bytes sg] obtain ib n
    where len: "length ib = INPUT_BUFFER_LEN" and last: "last ib = 0"
      and ce: "construct_events sg K (poll_state st bytes) =
        Inr ((poll_state st bytes)\<lparr>input_buffer := ib,
          event_buffer :=
            (pressed_events sg (input_buffer st) ib @ depressed_events sg ib (input_buffer st))
            @ replicate (EVENT_BUFFER_LEN
                - length (pressed_events sg (input_buffer st) ib @ depressed_events sg ib (input_buffer st))) 0\<rparr>)"
      and evs: "length (pressed_events sg (input_buffer st) ib @ depressed_events sg ib (input_buffer st))
        \<le> EVENT_BUFFER_LEN - 1"
    by blast
  let ?evs = "pressed_events sg (input_buffer st) ib @ depressed_events sg ib (input_buffer st)"
  have eq: "st' = (poll_state st bytes)\<lparr>input_buffer := ib,
      event_buffer := ?evs @ replicate (EVENT_BUFFER_LEN - length ?evs) 0\<rparr>"
    using st' ce by simp
  have ib: "input_buffer st' = ib"
    unfolding eq by simp
  show "input_ok st'"
    using len last by (simp add: input_ok_def ib)
  show "tio' = tio"
    by (rule tio)
  have nz: "\<forall>e\<in>set ?evs. e \<noteq> 0"
    using pressed_events_pressed[of _ sg "input_buffer st" ib]
      depressed_events_released[of _ sg ib "input_buffer st"] by auto
  have q: "event_queue st' = ?evs"
    unfolding event_queue_def eq using takeWhile_events[OF nz]
    by (simp add: poll_state_def)
  show "event_queue st' =
      pressed_events sg (input_buffer st) (input_buffer st')
      @ depressed_events sg (input_buffer st') (input_buffer st)"
    unfolding q ib ..
  show "length (event_queue st') \<le> EVENT_BUFFER_LEN - 1"
    unfolding q by (rule evs)
qed

lemma DG_ReadInput_returns:
  assumes "input_ok st"
    and "\<not> tcgetattr_fails env" "\<not> tcsetattr_newt_fails env" "read_result env = Some bytes"
      "\<not> tcsetattr_oldt_fails env" "\<not> tcflush_fails env"
  shows "\<exists>st'. DG_ReadInput sg K env tio st = (Inr st', tio)"
  using construct_events_poll_state[OF assms(1), of K bytes sg] assms(2-)
  unfolding DG_ReadInput_cases by auto

lemma DG_ReadInput_in_bounds:
  assumes "input_ok st"
  shows "fst (DG_ReadInput sg K env tio st) \<noteq> Inl Out_Of_Bounds"
proof (cases "read_result env")
  case None
  then show ?thesis
    unfolding DG_ReadInput_cases by simp
next
  case (Some bytes)
  from construct_events_poll_state[OF assms, of K bytes sg]
  obtain st' where "construct_events sg K (poll_state st bytes) = Inr st'"
    by blast
  then show ?thesis
    unfolding DG_ReadInput_cases using Some by simp
qed

lemma input_ok_init: "input_ok DG_Init_input"
  by (simp add: input_ok_def DG_Init_input_def INPUT_BUFFER_LEN_def)


lemma DG_GetKey_null: "DG_GetKey DG_Init_input = Inl Out_Of_Bounds"
  by (simp add: DG_GetKey_def DG_Init_input_def)

lemma DG_GetKey_pops:
  assumes "event_queue st = e # es"
  shows "\<exists>loc. event_buf_loc st = Some loc
    \<and> DG_GetKey st
        = Inr (Some (event_pressed_value e, event_key e), st\<lparr>event_buf_loc := Some (Suc loc)\<rparr>)
    \<and> event_queue (st\<lparr>event_buf_loc := Some (Suc loc)\<rparr>) = es"
proof -
  from assms obtain loc where loc: "event_buf_loc st = Some loc"
    by (cases "event_buf_loc st") (auto simp: event_queue_def)
  let ?rest = "drop loc (event_buffer st)"
  have q: "takeWhile (\<lambda>e. e \<noteq> 0) ?rest = e # es"
    using assms loc by (simp add: event_queue_def)
  then have "?rest \<noteq> []"
    by auto
  then have inb: "loc < length (event_buffer st)"
    by simp
  then have rest: "?rest = event_buffer st ! loc # drop (Suc loc) (event_buffer st)"
    by (simp add: Cons_nth_drop_Suc)
  have hd: "event_buffer st ! loc = e" "e \<noteq> 0"
    and tl: "takeWhile (\<lambda>e. e \<noteq> 0) (drop (Suc loc) (event_buffer st)) = es"
    using q unfolding rest by (auto split: if_splits)
  have "DG_GetKey st
      = Inr (Some (event_pressed_value e, event_key e), st\<lparr>event_buf_loc := Some (Suc loc)\<rparr>)"
    using inb hd loc by (simp add: DG_GetKey_def)
  moreover have "event_queue (st\<lparr>event_buf_loc := Some (Suc loc)\<rparr>) = es"
    using tl by (simp add: event_queue_def)
  ultimately show ?thesis
    using loc by blast
qed

lemma DG_GetKey_exhausted:
  assumes "event_queue st = []" and "event_buf_loc st = Some loc"
    and "loc < length (event_buffer st)"
  shows "DG_GetKey st = Inr (None, st)"
proof -
  have "drop loc (event_buffer st) = event_buffer st ! loc # drop (Suc loc) (event_buffer st)"
    using assms(3) by (simp add: Cons_nth_drop_Suc)
  then have "event_buffer st ! loc = 0"
    using assms(1,2) unfolding event_queue_def by (auto split: if_splits)
  then show ?thesis
    using assms(2,3) by (simp add: DG_GetKey_def)
qed

subsection \<open>The two passes, key by key\<close>

lemma filter_distinct_one:
  "distinct xs \<Longrightarrow> x \<in> set xs \<Longrightarrow> length (filter (\<lambda>y. y = x) xs) = 1"
  by (induction xs) (auto simp: filter_empty_conv)

lemma one_element_list:
  assumes "distinct xs" and "set xs = {a}"
  shows "xs = [a]"
proof -
  have "length xs = 1"
    using assms distinct_card[of xs] by simp
  then obtain x where "xs = [x]"
    by (cases xs) auto
  then show ?thesis
    using assms by auto
qed

lemma press_count:
  assumes "k \<in> set (held_keys cur)" and "k \<notin> set (held_keys prev)"
  shows "length (filter (\<lambda>e. event_pressed e \<and> event_key e = k) (pressed_events sg prev cur)) = 1"
proof -
  let ?P = "pressed_events sg prev cur"
  have "filter (\<lambda>e. event_pressed e \<and> event_key e = k) ?P = filter (\<lambda>e. event_key e = k) ?P"
    using pressed_events_pressed[of _ sg prev cur] by (intro filter_cong) auto
  then have "length (filter (\<lambda>e. event_pressed e \<and> event_key e = k) ?P)
      = length (filter (\<lambda>y. y = k) (map event_key ?P))"
    by (simp add: filter_map comp_def)
  also have "\<dots> = 1"
    using assms set_pressed_keys[of sg prev cur] distinct_pressed_keys[of sg prev cur]
    by (intro filter_distinct_one) auto
  finally show ?thesis .
qed

lemma no_pressed_in_released:
  "filter (\<lambda>e. event_pressed e \<and> Q e) (depressed_events sg cur prev) = []"
  using depressed_events_released[of _ sg cur prev] by (auto simp: filter_empty_conv)

lemma released_key_not_held:
  assumes "e \<in> set (depressed_events sg cur prev)"
  shows "event_key e \<in> set (held_keys prev)" and "event_key e \<notin> set (held_keys cur)"
proof -
  have "event_key e \<in> set (map event_key (depressed_events sg cur prev))"
    using assms by simp
  then have "event_key e \<in> set (filter (\<lambda>k. k \<notin> set (held_keys cur)) (held_keys prev))"
    by (simp only: depressed_keys)
  then show "event_key e \<in> set (held_keys prev)" and "event_key e \<notin> set (held_keys cur)"
    by simp_all
qed

lemma pressed_key_new:
  assumes "e \<in> set (pressed_events sg prev cur)"
  shows "event_key e \<in> set (held_keys cur)" and "event_key e \<notin> set (held_keys prev)"
proof -
  have "event_key e \<in> set (map event_key (pressed_events sg prev cur))"
    using assms by simp
  then have "event_key e \<in> set (held_keys cur) - set (held_keys prev)"
    by (simp only: set_pressed_keys)
  then show "event_key e \<in> set (held_keys cur)" and "event_key e \<notin> set (held_keys prev)"
    by simp_all
qed

lemma two_element_list:
  assumes "distinct xs" and "set xs = {a, b}" and "a \<noteq> b"
  shows "xs = [a, b] \<or> xs = [b, a]"
proof -
  have "length xs = 2"
    using assms distinct_card[of xs] by simp
  then obtain x y where "xs = [x, y]"
    by (cases xs; cases "tl xs") auto
  then show ?thesis
    using assms by (auto simp: doubleton_eq_iff)
qed

subsection \<open>Decoded keys, press keys and release keys\<close>

declare key_sequence.simps [simp del]

lemma pressed_keys_remdups:
  "map event_key (pressed_events sg prev cur)
    = filter (\<lambda>k. k \<notin> set (held_keys prev)) (remdups (held_keys cur))"
  by (induction cur) (auto simp: found_in_iff)

lemma tolower_nonzero: "c \<noteq> 0 \<Longrightarrow> tolower c \<noteq> 0"
proof -
  assume nz: "c \<noteq> 0"
  have "c + 0x20 \<noteq> 0" if "c \<le> 0x5A"
  proof -
    have "unat c \<le> 90"
      using that by (simp add: word_le_nat_alt)
    moreover have "unat (c + 0x20) = (unat c + 32) mod 256"
      by (simp add: unat_word_ariths)
    ultimately have "unat (c + 0x20) = unat c + 32"
      by simp
    then show ?thesis
      by (metis add_is_0 unat_0 zero_neq_numeral)
  qed
  then show ?thesis
    using nz by (simp add: tolower_def)
qed

lemma convertToDoomKey_nonzero:
  assumes "key_codes_nonzero K" and "c \<noteq> 0" and "convertToDoomKey K (c # rest) = Some (k, raw')"
  shows "k \<noteq> 0"
  using assms tolower_nonzero[of c]
  by (auto simp: convertToDoomKey_def key_codes_nonzero_def split: list.splits if_splits)

lemma key_sequence_nonzero:
  assumes "key_codes_nonzero K"
  shows "0 \<notin> set (key_sequence K raw)"
  using assms
proof (induction K raw rule: key_sequence.induct)
  case (1 K raw)
  show ?case
  proof (cases raw)
    case Nil
    then show ?thesis by (subst key_sequence.simps) simp
  next
    case (Cons c rest)
    show ?thesis
    proof (cases "c = 0")
      case True
      then show ?thesis using Cons by (subst key_sequence.simps) simp
    next
      case False
      show ?thesis
      proof (cases "convertToDoomKey K raw")
        case None
        then show ?thesis using Cons False by (subst key_sequence.simps) simp
      next
        case (Some r)
        obtain k raw' where r: "r = (k, raw')" by (cases r)
        have "k \<noteq> 0"
          using convertToDoomKey_nonzero[OF "1.prems" False] Some r Cons by simp
        moreover have "0 \<notin> set (key_sequence K raw')"
          using "1.IH"[OF Cons False Some r[symmetric]] "1.prems" .
        moreover have "key_sequence K raw = k # key_sequence K raw'"
          using Cons False Some r by (subst key_sequence.simps) simp
        ultimately show ?thesis by simp
      qed
    qed
  qed
qed

lemma decode_keys_key_sequence:
  assumes "0 \<in> set raw" and "loc + length (held_keys raw) \<le> length ib"
  shows "decode_keys K raw ib loc
    = Some (take loc ib @ key_sequence K raw @ drop (loc + length (key_sequence K raw)) ib,
            loc + length (key_sequence K raw))"
  using assms
proof (induction K raw ib loc rule: decode_keys.induct)
  case (1 K raw ib loc)
  from "1.prems"(1) obtain c rest where raw: "raw = c # rest"
    by (cases raw) auto
  show ?case
  proof (cases "c = 0")
    case True
    have "decode_keys K raw ib loc = Some (ib, loc)"
      using raw True by (subst decode_keys.simps) simp
    moreover have "key_sequence K raw = []"
      using raw True by (subst key_sequence.simps) simp
    ultimately show ?thesis
      by simp
  next
    case False
    then have "0 \<in> set rest"
      using "1.prems"(1) raw by auto
    from convertToDoomKey_step[OF False this, of K] obtain k used raw'
      where conv: "convertToDoomKey K raw = Some (k, raw')"
        and split: "raw = used @ raw'" and used: "used \<noteq> []" "0 \<notin> set used"
      unfolding raw by blast
    have held: "held_keys raw = used @ held_keys raw'"
      unfolding split using used(2) by (rule held_keys_append_nonzero)
    have nul': "0 \<in> set raw'"
      using "1.prems"(1) split used(2) by auto
    have len: "length (held_keys raw) = length used + length (held_keys raw')"
        "Suc 0 \<le> length used"
      using used(1) held by (simp_all add: Suc_le_eq)
    have inb: "loc < length ib"
      using "1.prems"(2) len by linarith
    have "Suc loc + length (held_keys raw') \<le> length ib"
      using "1.prems"(2) len by linarith
    then have room: "Suc loc + length (held_keys raw') \<le> length (ib[loc := k])"
      by simp
    let ?ks = "key_sequence K raw'"
    have rec: "decode_keys K raw' (ib[loc := k]) (Suc loc)
        = Some (take (Suc loc) (ib[loc := k]) @ ?ks @ drop (Suc loc + length ?ks) (ib[loc := k]),
                Suc loc + length ?ks)"
      using "1.IH"[OF raw False conv refl inb nul' room] .
    have t: "take (Suc loc) (ib[loc := k]) = take loc ib @ [k]"
      using inb by (simp add: take_Suc_conv_app_nth)
    have d: "drop (Suc loc + length ?ks) (ib[loc := k]) = drop (Suc loc + length ?ks) ib"
      by simp
    have ks: "key_sequence K raw = k # ?ks"
      using raw False conv by (subst key_sequence.simps) simp
    have "decode_keys K raw ib loc = decode_keys K raw' (ib[loc := k]) (Suc loc)"
      using raw False conv inb by (subst decode_keys.simps) simp
    then show ?thesis
      unfolding rec t d ks by simp
  qed
qed

lemma key_sequence_plain:
  assumes "\<forall>c\<in>set bs. plain_byte c"
  shows "key_sequence K (bs @ 0 # zs) = map tolower bs"
  using assms
proof (induction bs)
  case Nil
  show ?case by (subst key_sequence.simps) simp
next
  case (Cons c bs)
  then have c: "plain_byte c" and rest: "key_sequence K (bs @ 0 # zs) = map tolower bs"
    by simp_all
  have "convertToDoomKey K ((c # bs) @ 0 # zs) = Some (tolower c, bs @ 0 # zs)"
    using c by (simp add: convertToDoomKey_def plain_byte_def)
  then have "key_sequence K ((c # bs) @ 0 # zs) = tolower c # key_sequence K (bs @ 0 # zs)"
    using c by (subst key_sequence.simps) (simp add: plain_byte_def)
  then show ?case
    using rest by simp
qed

lemma held_keys_padding: "held_keys (ks @ replicate n 0) = held_keys ks"
proof -
  have "held_keys (replicate n 0) = []"
    by (cases n) simp_all
  then show ?thesis
    by (induction ks) auto
qed

lemma held_keys_all: "0 \<notin> set ks \<Longrightarrow> held_keys ks = ks"
  by (induction ks) auto

lemma DG_ReadInput_decoded:
  assumes ok: "input_ok st" and run: "DG_ReadInput sg K env tio st = (Inr st', tio')"
  shows "\<exists>bytes. read_result env = Some bytes
    \<and> raw_input_buffer st' = take (INPUT_BUFFER_LEN - 1) bytes
        @ replicate (INPUT_BUFFER_LEN - length (take (INPUT_BUFFER_LEN - 1) bytes)) 0
    \<and> input_buffer st' = key_sequence K (raw_input_buffer st')
        @ replicate (INPUT_BUFFER_LEN - length (key_sequence K (raw_input_buffer st'))) 0"
proof -
  from run obtain bytes where rd: "read_result env = Some bytes"
    and st': "construct_events sg K (poll_state st bytes) = Inr st'"
    unfolding DG_ReadInput_cases by (auto split: if_splits option.splits)
  define got where "got = take (INPUT_BUFFER_LEN - 1) bytes"
  let ?raw = "raw_input_buffer (poll_state st bytes)"
  let ?zeros = "replicate INPUT_BUFFER_LEN (0 :: byte)"
  have got: "length got \<le> 15"
    by (simp add: got_def INPUT_BUFFER_LEN_def)
  have raw: "?raw = got @ replicate (16 - length got) 0"
    by (simp add: poll_state_def got_def INPUT_BUFFER_LEN_def)
  have "16 - length got \<noteq> 0"
    using got by linarith
  then have nul: "0 \<in> set ?raw"
    unfolding raw by simp
  have held_raw: "length (held_keys ?raw) \<le> 15"
    unfolding raw using length_held_keys_read[of got "16 - length got"] got by linarith
  then have room: "0 + length (held_keys ?raw) \<le> length ?zeros"
    by (simp add: INPUT_BUFFER_LEN_def)
  let ?ks = "key_sequence K ?raw"
  have dec: "decode_keys K ?raw ?zeros 0
      = Some (?ks @ replicate (INPUT_BUFFER_LEN - length ?ks) 0, length ?ks)"
    using decode_keys_key_sequence[OF nul room, of K] by simp
  have "input_buffer (poll_state st bytes) = ?zeros"
    by (simp add: poll_state_def)
  then have "input_buffer st' = ?ks @ replicate (INPUT_BUFFER_LEN - length ?ks) 0
      \<and> raw_input_buffer st' = ?raw"
    using st' dec by (auto simp: construct_events_def Let_def split: if_splits)
  then show ?thesis
    using rd by (simp add: poll_state_def)
qed

lemma raw_mode_fields:
  "c_lflag (raw_mode tio) AND ICANON = 0" "c_cc_VMIN (raw_mode tio) = 0" "c_cc_VTIME (raw_mode tio) = 0"
  by (simp_all add: raw_mode_def and.assoc)

lemma press_keys_of_queue:
  assumes "q = pressed_events sg prev cur @ depressed_events sg cur prev"
  shows "map event_key (filter event_pressed q)
      = filter (\<lambda>k. k \<notin> set (held_keys prev)) (remdups (held_keys cur))"
    and "map event_key (filter (\<lambda>e. \<not> event_pressed e) q)
      = filter (\<lambda>k. k \<notin> set (held_keys cur)) (held_keys prev)"
proof -
  have P: "filter event_pressed (pressed_events sg prev cur) = pressed_events sg prev cur"
    "filter (\<lambda>e. \<not> event_pressed e) (pressed_events sg prev cur) = []"
    using pressed_events_pressed[of _ sg prev cur] by (auto simp: filter_id_conv filter_empty_conv)
  have R: "filter event_pressed (depressed_events sg cur prev) = []"
    "filter (\<lambda>e. \<not> event_pressed e) (depressed_events sg cur prev) = depressed_events sg cur prev"
    using depressed_events_released[of _ sg cur prev] by (auto simp: filter_id_conv filter_empty_conv)
  show "map event_key (filter event_pressed q)
      = filter (\<lambda>k. k \<notin> set (held_keys prev)) (remdups (held_keys cur))"
    unfolding assms using P R pressed_keys_remdups[of sg prev cur] by simp
  show "map event_key (filter (\<lambda>e. \<not> event_pressed e) q)
      = filter (\<lambda>k. k \<notin> set (held_keys cur)) (held_keys prev)"
    unfolding assms using P R depressed_keys[of sg cur prev] by simp
qed

subsection \<open>Claims about the input event deriver\<close>

text \<open>
  The theorems speak about a poll that returned: \<open>st\<close> is the state before the call,
  \<open>st'\<close> the state it returns. The previous Held-Key Set is \<open>held_keys (input_buffer st)\<close>,
  the current one \<open>held_keys (input_buffer st')\<close>. By \<open>DG_ReadInput_returns\<close> the poll
  does return whenever the five calls of the operating system succeed.
\<close>

text \<open>
  Claim C1 says that a key decoded twice from one burst and absent from the previous
  Held-Key Set produces no event at all. The duplicate scan of the press pass looks at
  the later entries only, so the last occurrence has no duplicate: after an empty set,
  the burst \<^verbatim>\<open>aa\<close> yields the held keys \<^verbatim>\<open>a, a\<close> and a queue of one event, a press of
  \<^verbatim>\<open>a\<close>.
\<close>

theorem repeated_key_counterexample:
  "poll_view (DG_ReadInput True example_keys (os_returns [0x61, 0x61]) cooked DG_Init_input)
      = Some ([0x61, 0x61], [0x0161])
    \<and> held_keys (input_buffer DG_Init_input) = []
    \<and> event_pressed 0x0161 \<and> event_key 0x0161 = 0x61"
  by code_simp

text \<open>
  Claim C1, amended: in every poll in which the current Held-Key Set contains a key
  twice or more and the previous one does not contain it, the queue holds exactly one
  press event and no release event for that key. The press stands for the last
  occurrence of the key, because the duplicate scan only looks at later entries: the
  keys of the press events, in queue order, are the current Held-Key Set with only the
  last occurrence of every key kept (\<open>remdups\<close>) and the keys of the previous set
  removed. The burst \<^verbatim>\<open>aba\<close> after an empty set gives a press of \<^verbatim>\<open>b\<close>, then a press of
  \<^verbatim>\<open>a\<close>.
\<close>

theorem poll_repeated_key_one_press:
  assumes "input_ok st"
    and "DG_ReadInput sg K env tio st = (Inr st', tio')"
    and "2 \<le> count_list (held_keys (input_buffer st')) k"
    and "k \<notin> set (held_keys (input_buffer st))"
  shows "length (filter (\<lambda>e. event_pressed e \<and> event_key e = k) (event_queue st')) = 1
    \<and> length (filter (\<lambda>e. \<not> event_pressed e \<and> event_key e = k) (event_queue st')) = 0
    \<and> map event_key (filter event_pressed (event_queue st'))
        = filter (\<lambda>k. k \<notin> set (held_keys (input_buffer st)))
            (remdups (held_keys (input_buffer st')))"
proof -
  let ?prev = "input_buffer st" and ?cur = "input_buffer st'"
  have q: "event_queue st' = pressed_events sg ?prev ?cur @ depressed_events sg ?cur ?prev"
    using DG_ReadInput_Inr(3)[OF assms(1,2)] .
  have "count_list (held_keys ?cur) k \<noteq> 0"
    using assms(3) by simp
  then have held: "k \<in> set (held_keys ?cur)"
    by (simp add: count_list_0_iff)
  have "length (filter (\<lambda>e. event_pressed e \<and> event_key e = k) (event_queue st')) = 1"
    unfolding q using press_count[OF held assms(4), of sg] no_pressed_in_released[of _ sg ?cur ?prev]
    by simp
  moreover have "filter (\<lambda>e. \<not> event_pressed e \<and> event_key e = k) (pressed_events sg ?prev ?cur) = []"
    using pressed_events_pressed[of _ sg ?prev ?cur] by (auto simp: filter_empty_conv)
  moreover have "filter (\<lambda>e. \<not> event_pressed e \<and> event_key e = k) (depressed_events sg ?cur ?prev) = []"
    using released_key_not_held(2)[of _ sg ?cur ?prev] held by (auto simp: filter_empty_conv)
  moreover note press_keys_of_queue(1)[OF q]
  ultimately show ?thesis
    unfolding q by simp
qed

theorem poll_repeated_key_one_press_witness:
  "input_ok DG_Init_input
    \<and> DG_ReadInput True example_keys (os_returns [0x61, 0x62, 0x61]) cooked DG_Init_input
        = (Inr after_aba, cooked)
    \<and> 2 \<le> count_list (held_keys (input_buffer after_aba)) 0x61
    \<and> 0x61 \<notin> set (held_keys (input_buffer DG_Init_input))
    \<and> held_keys (input_buffer after_aba) = [0x61, 0x62, 0x61]
    \<and> length (filter (\<lambda>e. event_pressed e \<and> event_key e = 0x61) (event_queue after_aba)) = 1
    \<and> length (filter (\<lambda>e. \<not> event_pressed e \<and> event_key e = 0x61) (event_queue after_aba)) = 0
    \<and> map event_key (filter event_pressed (event_queue after_aba)) = [0x62, 0x61]"
proof -
  have a: "input_ok DG_Init_input"
    by (rule input_ok_init)
  have b: "DG_ReadInput True example_keys (os_returns [0x61, 0x62, 0x61]) cooked DG_Init_input
      = (Inr after_aba, cooked)"
    by code_simp
  have c: "2 \<le> count_list (held_keys (input_buffer after_aba)) 0x61"
    by code_simp
  have d: "0x61 \<notin> set (held_keys (input_buffer DG_Init_input))"
    by code_simp
  have h: "held_keys (input_buffer after_aba) = [0x61, 0x62, 0x61]"
    "held_keys (input_buffer DG_Init_input) = []"
    by code_simp+
  have "map event_key (filter event_pressed (event_queue after_aba))
      = filter (\<lambda>k. k \<notin> set (held_keys (input_buffer DG_Init_input)))
          (remdups (held_keys (input_buffer after_aba)))"
    using poll_repeated_key_one_press[OF a b c d] by blast
  then have e: "map event_key (filter event_pressed (event_queue after_aba)) = [0x62, 0x61]"
    unfolding h by simp
  show ?thesis
    using poll_repeated_key_one_press[OF a b c d] a b c d h(1) e by blast
qed

text \<open>
  Claim C5: the queue of every poll is a run of press events followed by a run of
  release events; and when the previous Held-Key Set is \<open>{A, B}\<close> and the current one
  \<open>{B, C}\<close>, three different keys each held once, the queue is exactly the press event
  of \<open>C\<close> followed by the release event of \<open>A\<close>, which \<^verbatim>\<open>DG_GetKey\<close> reads as pressed
  with key \<open>C\<close> and as released with key \<open>A\<close>.
\<close>

theorem poll_press_then_release:
  assumes "input_ok st"
    and "DG_ReadInput sg K env tio st = (Inr st', tio')"
  shows "(\<exists>P R. event_queue st' = P @ R
            \<and> (\<forall>e\<in>set P. event_pressed e) \<and> (\<forall>e\<in>set R. \<not> event_pressed e))
    \<and> (distinct (held_keys (input_buffer st)) \<and> set (held_keys (input_buffer st)) = {A, B}
        \<and> distinct (held_keys (input_buffer st')) \<and> set (held_keys (input_buffer st')) = {B, C}
        \<and> A \<noteq> B \<and> B \<noteq> C \<and> A \<noteq> C
       \<longrightarrow> event_queue st' = [press_event sg C, release_event sg A]
           \<and> event_pressed (press_event sg C) \<and> event_key (press_event sg C) = C
           \<and> \<not> event_pressed (release_event sg A) \<and> event_key (release_event sg A) = A)"
proof (rule conjI)
  let ?prev = "input_buffer st" and ?cur = "input_buffer st'"
  let ?P = "pressed_events sg ?prev ?cur" and ?R = "depressed_events sg ?cur ?prev"
  have q: "event_queue st' = ?P @ ?R"
    using DG_ReadInput_Inr(3)[OF assms] .
  have "(\<forall>e\<in>set ?P. event_pressed e) \<and> (\<forall>e\<in>set ?R. \<not> event_pressed e)"
    using pressed_events_pressed[of _ sg ?prev ?cur] depressed_events_released[of _ sg ?cur ?prev]
    by blast
  then show "\<exists>P R. event_queue st' = P @ R
      \<and> (\<forall>e\<in>set P. event_pressed e) \<and> (\<forall>e\<in>set R. \<not> event_pressed e)"
    using q by blast
  show "distinct (held_keys ?prev) \<and> set (held_keys ?prev) = {A, B}
        \<and> distinct (held_keys ?cur) \<and> set (held_keys ?cur) = {B, C}
        \<and> A \<noteq> B \<and> B \<noteq> C \<and> A \<noteq> C
       \<longrightarrow> event_queue st' = [press_event sg C, release_event sg A]
           \<and> event_pressed (press_event sg C) \<and> event_key (press_event sg C) = C
           \<and> \<not> event_pressed (release_event sg A) \<and> event_key (release_event sg A) = A"
  proof (intro impI, elim conjE)
    assume dp: "distinct (held_keys ?prev)" and sp: "set (held_keys ?prev) = {A, B}"
      and dc: "distinct (held_keys ?cur)" and sc: "set (held_keys ?cur) = {B, C}"
      and ne: "A \<noteq> B" "B \<noteq> C" "A \<noteq> C"
    have "set (map event_key ?P) = {C}"
      unfolding set_pressed_keys sp sc using ne by auto
    moreover have "distinct (map event_key ?P)"
      by (rule distinct_pressed_keys)
    ultimately have "map event_key ?P = [C]"
      by (intro one_element_list)
    then have P: "?P = [press_event sg C]"
      using pressed_events_keys[of sg ?prev ?cur] by simp
    have "held_keys ?prev = [A, B] \<or> held_keys ?prev = [B, A]"
      using two_element_list[OF dp sp ne(1)] .
    then have "filter (\<lambda>k. k \<notin> set (held_keys ?cur)) (held_keys ?prev) = [A]"
      unfolding sc using ne by auto
    then have "map event_key ?R = [A]"
      by (simp only: depressed_keys)
    then have R: "?R = [release_event sg A]"
      using depressed_events_keys[of sg ?cur ?prev] by simp
    show "event_queue st' = [press_event sg C, release_event sg A]
        \<and> event_pressed (press_event sg C) \<and> event_key (press_event sg C) = C
        \<and> \<not> event_pressed (release_event sg A) \<and> event_key (release_event sg A) = A"
      unfolding q P R by simp
  qed
qed

theorem poll_press_then_release_witness:
  "input_ok after_ab
    \<and> DG_ReadInput True example_keys (os_returns [0x62, 0x63]) cooked after_ab
        = (Inr after_ab_bc, cooked)
    \<and> distinct (held_keys (input_buffer after_ab))
    \<and> set (held_keys (input_buffer after_ab)) = {0x61, 0x62}
    \<and> distinct (held_keys (input_buffer after_ab_bc))
    \<and> set (held_keys (input_buffer after_ab_bc)) = {0x62, 0x63}
    \<and> event_queue after_ab_bc = [press_event True 0x63, release_event True 0x61]"
proof -
  have a: "input_ok after_ab"
    by code_simp
  have b: "DG_ReadInput True example_keys (os_returns [0x62, 0x63]) cooked after_ab
      = (Inr after_ab_bc, cooked)"
    by code_simp
  have h: "held_keys (input_buffer after_ab) = [0x61, 0x62]"
    "held_keys (input_buffer after_ab_bc) = [0x62, 0x63]"
    by code_simp+
  have c: "distinct (held_keys (input_buffer after_ab))"
    "set (held_keys (input_buffer after_ab)) = {0x61, 0x62}"
    "distinct (held_keys (input_buffer after_ab_bc))"
    "set (held_keys (input_buffer after_ab_bc)) = {0x62, 0x63}"
    unfolding h by simp_all
  have d: "(0x61 :: byte) \<noteq> 0x62" "(0x62 :: byte) \<noteq> 0x63" "(0x61 :: byte) \<noteq> 0x63"
    by simp_all
  show ?thesis
    using poll_press_then_release[OF a b, of "0x61" "0x62" "0x63"] a b c d by blast
qed

text \<open>
  Claim C6: the queue of a poll never holds a press event and a release event with the
  same key code, and a key that is in both the previous and the current Held-Key Set
  has no event in the queue.
\<close>

theorem poll_never_press_and_release:
  assumes "input_ok st"
    and "DG_ReadInput sg K env tio st = (Inr st', tio')"
  shows "(\<forall>e1\<in>set (event_queue st'). \<forall>e2\<in>set (event_queue st').
            event_pressed e1 \<and> \<not> event_pressed e2 \<longrightarrow> event_key e1 \<noteq> event_key e2)
    \<and> (\<forall>k. k \<in> set (held_keys (input_buffer st)) \<and> k \<in> set (held_keys (input_buffer st'))
            \<longrightarrow> (\<forall>e\<in>set (event_queue st'). event_key e \<noteq> k))"
proof -
  let ?prev = "input_buffer st" and ?cur = "input_buffer st'"
  let ?P = "pressed_events sg ?prev ?cur" and ?R = "depressed_events sg ?cur ?prev"
  have q: "set (event_queue st') = set ?P \<union> set ?R"
    using DG_ReadInput_Inr(3)[OF assms] by simp
  have P: "\<And>e. e \<in> set ?P \<Longrightarrow>
      event_pressed e \<and> event_key e \<in> set (held_keys ?cur) \<and> event_key e \<notin> set (held_keys ?prev)"
    using pressed_events_pressed pressed_key_new by blast
  have R: "\<And>e. e \<in> set ?R \<Longrightarrow>
      \<not> event_pressed e \<and> event_key e \<in> set (held_keys ?prev) \<and> event_key e \<notin> set (held_keys ?cur)"
    using depressed_events_released released_key_not_held by blast
  have "\<forall>e1\<in>set (event_queue st'). \<forall>e2\<in>set (event_queue st').
      event_pressed e1 \<and> \<not> event_pressed e2 \<longrightarrow> event_key e1 \<noteq> event_key e2"
    unfolding q using P R by (metis Un_iff)
  moreover have "\<forall>k. k \<in> set (held_keys ?prev) \<and> k \<in> set (held_keys ?cur)
      \<longrightarrow> (\<forall>e\<in>set (event_queue st'). event_key e \<noteq> k)"
    unfolding q using P R by (metis Un_iff)
  ultimately show ?thesis by (rule conjI)
qed

theorem poll_never_press_and_release_witness:
  "input_ok after_ab
    \<and> DG_ReadInput True example_keys (os_returns [0x62, 0x63]) cooked after_ab
        = (Inr after_ab_bc, cooked)
    \<and> 0x62 \<in> set (held_keys (input_buffer after_ab))
    \<and> 0x62 \<in> set (held_keys (input_buffer after_ab_bc))
    \<and> 0x62 \<notin> set (map event_key (event_queue after_ab_bc))
    \<and> event_queue after_ab_bc = [0x0163, 0x0061]"
proof -
  have a: "input_ok after_ab"
    by code_simp
  have b: "DG_ReadInput True example_keys (os_returns [0x62, 0x63]) cooked after_ab
      = (Inr after_ab_bc, cooked)"
    by code_simp
  have h: "held_keys (input_buffer after_ab) = [0x61, 0x62]"
    "held_keys (input_buffer after_ab_bc) = [0x62, 0x63]"
    by code_simp+
  have c: "0x62 \<in> set (held_keys (input_buffer after_ab))"
    "0x62 \<in> set (held_keys (input_buffer after_ab_bc))"
    unfolding h by simp_all
  have q: "event_queue after_ab_bc = [0x0163, 0x0061]"
    by code_simp
  have "\<forall>e\<in>set (event_queue after_ab_bc). event_key e \<noteq> 0x62"
    using poll_never_press_and_release[OF a b] c by blast
  then have "0x62 \<notin> set (map event_key (event_queue after_ab_bc))"
    by auto
  then show ?thesis
    using a b c q by blast
qed

text \<open>
  Claim C7 bounds the events of one poll by \<open>2 * 15 - 1 = 29\<close>. A poll that finds the
  fifteen keys \<^verbatim>\<open>a\<close> to \<^verbatim>\<open>o\<close> held and reads the fifteen other keys \<^verbatim>\<open>p\<close> to \<^verbatim>\<open>z\<close>,
  \<^verbatim>\<open>0\<close> to \<^verbatim>\<open>3\<close> produces fifteen press events and fifteen release events: thirty. The
  first conjunct shows that the state with \<^verbatim>\<open>a\<close> to \<^verbatim>\<open>o\<close> held is the one a poll leaves.
\<close>

theorem thirty_events_counterexample:
  "DG_ReadInput True example_keys (os_returns burst_a_to_o) cooked DG_Init_input
      = (Inr after_a_to_o, cooked)
    \<and> poll_view (DG_ReadInput True example_keys (os_returns burst_p_to_3) cooked after_a_to_o)
      = Some (burst_p_to_3,
              map (press_event True) burst_p_to_3 @ map (release_event True) burst_a_to_o)
    \<and> length (map (press_event True) burst_p_to_3 @ map (release_event True) burst_a_to_o) = 30
    \<and> length burst_a_to_o = 15 \<and> length burst_p_to_3 = 15"
  by code_simp

text \<open>
  Claim C7, amended: the queue of a poll holds at most \<open>2 * 15 = 30\<close> events, one entry
  less than \<^verbatim>\<open>EVENT_BUFFER_LEN\<close>, so that a zero entry always ends it.
\<close>

theorem poll_event_count:
  assumes "input_ok st"
    and "DG_ReadInput sg K env tio st = (Inr st', tio')"
  shows "length (event_queue st') \<le> 2 * (INPUT_BUFFER_LEN - 1)
    \<and> 2 * (INPUT_BUFFER_LEN - 1) = 30 \<and> EVENT_BUFFER_LEN - 1 = 30"
  using DG_ReadInput_Inr(4)[OF assms]
  by (simp add: EVENT_BUFFER_LEN_def INPUT_BUFFER_LEN_def)

theorem poll_event_count_witness:
  "input_ok after_a_to_o
    \<and> DG_ReadInput True example_keys (os_returns burst_p_to_3) cooked after_a_to_o
        = (Inr after_p_to_3, cooked)
    \<and> length (event_queue after_p_to_3) = 30
    \<and> length (event_queue after_p_to_3) \<le> 2 * (INPUT_BUFFER_LEN - 1)"
proof -
  have a: "input_ok after_a_to_o"
    by code_simp
  have b: "DG_ReadInput True example_keys (os_returns burst_p_to_3) cooked after_a_to_o
      = (Inr after_p_to_3, cooked)"
    by code_simp
  have c: "length (event_queue after_p_to_3) = 30"
    by code_simp
  show ?thesis
    using poll_event_count[OF a b] a b c by blast
qed

text \<open>
  Claim C8 says that the held-key sequence built by the decode pass never repeats a key
  code. The decode loop stores one entry for every key it decodes and compares nothing:
  the burst \<^verbatim>\<open>ww\<close> leaves the held keys \<^verbatim>\<open>w, w\<close>.
\<close>

theorem held_keys_repeat_counterexample:
  "poll_view (DG_ReadInput True example_keys (os_returns [0x77, 0x77]) cooked DG_Init_input)
      = Some ([0x77, 0x77], [0x0177])
    \<and> \<not> distinct [0x77, 0x77 :: byte]"
  by code_simp

text \<open>
  Claim C8, amended: after every poll the current Held-Key Set is the sequence of the
  keys that \<^verbatim>\<open>convertToDoomKey\<close> returned for the raw burst (its first fifteen bytes),
  one entry for every call and in the order of the calls, the key codes of
  \<^verbatim>\<open>doomkeys.h\<close> being other than NUL; for a burst of bytes that are none of NUL,
  newline, \<^verbatim>\<open>ESC\<close> and space it is the burst itself, lower-cased byte by byte. So a key
  code decoded twice is held twice. Repetitions are dropped by the press pass alone: it
  skips every entry that has an equal later entry, so that the keys of the press events,
  in queue order, are the current set with only the last occurrence of every key kept
  and the keys of the previous set removed, and they are pairwise different. The
  release pass drops nothing: the keys of the release events are the entries of the
  previous set that the current set lacks, one event for every such entry.
\<close>

theorem poll_held_keys_follow_decoder:
  assumes "input_ok st"
    and "DG_ReadInput sg K env tio st = (Inr st', tio')"
    and "key_codes_nonzero K"
  shows "(\<exists>bytes. read_result env = Some bytes
          \<and> raw_input_buffer st' = take (INPUT_BUFFER_LEN - 1) bytes
                @ replicate (INPUT_BUFFER_LEN - length (take (INPUT_BUFFER_LEN - 1) bytes)) 0
          \<and> (list_all plain_byte (take (INPUT_BUFFER_LEN - 1) bytes)
                \<longrightarrow> held_keys (input_buffer st') = map tolower (take (INPUT_BUFFER_LEN - 1) bytes)))
    \<and> held_keys (input_buffer st') = key_sequence K (raw_input_buffer st')
    \<and> map event_key (filter event_pressed (event_queue st'))
        = filter (\<lambda>k. k \<notin> set (held_keys (input_buffer st)))
            (remdups (held_keys (input_buffer st')))
    \<and> distinct (map event_key (filter event_pressed (event_queue st')))
    \<and> map event_key (filter (\<lambda>e. \<not> event_pressed e) (event_queue st'))
        = filter (\<lambda>k. k \<notin> set (held_keys (input_buffer st'))) (held_keys (input_buffer st))"
proof -
  let ?prev = "input_buffer st" and ?cur = "input_buffer st'"
  let ?ks = "key_sequence K (raw_input_buffer st')"
  from DG_ReadInput_decoded[OF assms(1,2)] obtain bytes
    where rd: "read_result env = Some bytes"
      and raw: "raw_input_buffer st' = take (INPUT_BUFFER_LEN - 1) bytes
          @ replicate (INPUT_BUFFER_LEN - length (take (INPUT_BUFFER_LEN - 1) bytes)) 0"
      and ib: "?cur = ?ks @ replicate (INPUT_BUFFER_LEN - length ?ks) 0"
    by blast
  have "held_keys ?cur = held_keys ?ks"
    by (subst ib) (rule held_keys_padding)
  then have held: "held_keys ?cur = ?ks"
    using key_sequence_nonzero[OF assms(3), of "raw_input_buffer st'"] by (simp add: held_keys_all)
  have plain: "held_keys ?cur = map tolower (take (INPUT_BUFFER_LEN - 1) bytes)"
    if "list_all plain_byte (take (INPUT_BUFFER_LEN - 1) bytes)"
  proof -
    define got where "got = take (INPUT_BUFFER_LEN - 1) bytes"
    have "length got \<le> 15"
      by (simp add: got_def INPUT_BUFFER_LEN_def)
    then obtain m where "INPUT_BUFFER_LEN - length got = Suc m"
      by (cases "INPUT_BUFFER_LEN - length got") (simp_all add: INPUT_BUFFER_LEN_def)
    then have "raw_input_buffer st' = got @ 0 # replicate m 0"
      using raw by (simp add: got_def)
    moreover have "\<forall>c\<in>set got. plain_byte c"
      using that by (simp add: got_def list_all_iff)
    ultimately have "?ks = map tolower got"
      using key_sequence_plain[of got K "replicate m 0"] by simp
    then show ?thesis
      using held by (simp add: got_def)
  qed
  have q: "event_queue st' = pressed_events sg ?prev ?cur @ depressed_events sg ?cur ?prev"
    using DG_ReadInput_Inr(3)[OF assms(1,2)] .
  have press: "map event_key (filter event_pressed (event_queue st'))
      = filter (\<lambda>k. k \<notin> set (held_keys ?prev)) (remdups (held_keys ?cur))"
    using press_keys_of_queue(1)[OF q] .
  have release: "map event_key (filter (\<lambda>e. \<not> event_pressed e) (event_queue st'))
      = filter (\<lambda>k. k \<notin> set (held_keys ?cur)) (held_keys ?prev)"
    using press_keys_of_queue(2)[OF q] .
  have dist: "distinct (map event_key (filter event_pressed (event_queue st')))"
    unfolding press by simp
  show ?thesis
    using rd raw plain held press dist release by blast
qed

theorem poll_held_keys_follow_decoder_witness:
  "input_ok DG_Init_input
    \<and> DG_ReadInput True example_keys (os_returns [0x61, 0x62, 0x61]) cooked DG_Init_input
        = (Inr after_aba, cooked)
    \<and> key_codes_nonzero example_keys
    \<and> list_all plain_byte [0x61, 0x62, 0x61]
    \<and> held_keys (input_buffer after_aba) = map tolower [0x61, 0x62, 0x61]
    \<and> held_keys (input_buffer after_aba) = key_sequence example_keys (raw_input_buffer after_aba)
    \<and> \<not> distinct (held_keys (input_buffer after_aba))
    \<and> map event_key (filter event_pressed (event_queue after_aba)) = [0x62, 0x61]
    \<and> distinct (map event_key (filter event_pressed (event_queue after_aba)))"
proof -
  have a: "input_ok DG_Init_input"
    by (rule input_ok_init)
  have b: "DG_ReadInput True example_keys (os_returns [0x61, 0x62, 0x61]) cooked DG_Init_input
      = (Inr after_aba, cooked)"
    by code_simp
  have c: "key_codes_nonzero example_keys"
    by code_simp
  have p: "list_all plain_byte [0x61, 0x62, 0x61]"
    by code_simp
  have h: "held_keys (input_buffer after_aba) = [0x61, 0x62, 0x61]"
    "held_keys (input_buffer DG_Init_input) = []"
    by code_simp+
  have t: "map tolower [0x61, 0x62, 0x61] = [0x61, 0x62, 0x61]"
    by code_simp
  note main = poll_held_keys_follow_decoder[OF a b c]
  have k: "held_keys (input_buffer after_aba) = key_sequence example_keys (raw_input_buffer after_aba)"
    using main by blast
  have "map event_key (filter event_pressed (event_queue after_aba))
      = filter (\<lambda>k. k \<notin> set (held_keys (input_buffer DG_Init_input)))
          (remdups (held_keys (input_buffer after_aba)))"
    using main by blast
  then have e: "map event_key (filter event_pressed (event_queue after_aba)) = [0x62, 0x61]"
    unfolding h by simp
  have d: "distinct (map event_key (filter event_pressed (event_queue after_aba)))"
    using main by blast
  have n: "\<not> distinct (held_keys (input_buffer after_aba))"
    unfolding h by simp
  show ?thesis
    using a b c p h(1) t k e d n by simp
qed

text \<open>
  Claim C9 says that the terminal mode is restored on every exit path, error paths
  included. When \<^verbatim>\<open>read\<close> fails, \<^verbatim>\<open>I_Error\<close> ends the process before the second
  \<^verbatim>\<open>tcsetattr\<close> is reached: the terminal stays without canonical mode, with \<^verbatim>\<open>VMIN\<close>
  zero.
\<close>

theorem read_failure_counterexample:
  "DG_ReadInput True example_keys os_read_fails cooked DG_Init_input
      = (Inl (I_Error ''DG_DrawFrame: read error %d''), raw_mode cooked)
    \<and> raw_mode cooked \<noteq> cooked
    \<and> c_lflag cooked AND ICANON = ICANON
    \<and> c_lflag (raw_mode cooked) AND ICANON = 0"
  by code_simp

text \<open>
  Claim C9, amended: a poll returns exactly when all five calls of the operating system
  succeed, and then the terminal has the mode it had before the call. When
  \<^verbatim>\<open>tcgetattr\<close>, the first \<^verbatim>\<open>tcsetattr\<close> or \<^verbatim>\<open>tcflush\<close> fails, \<^verbatim>\<open>I_Error\<close> terminates the
  process with the terminal in that same mode. When \<^verbatim>\<open>read\<close> or the second \<^verbatim>\<open>tcsetattr\<close>
  fails, \<^verbatim>\<open>I_Error\<close> terminates the process with the altered mode in force: canonical
  mode off, \<^verbatim>\<open>VMIN\<close> and \<^verbatim>\<open>VTIME\<close> zero.
\<close>

theorem poll_terminal_mode:
  assumes "input_ok st"
  shows "(\<forall>st' tio'. DG_ReadInput sg K env tio st = (Inr st', tio') \<longrightarrow>
            tio' = tio
            \<and> \<not> tcgetattr_fails env \<and> \<not> tcsetattr_newt_fails env \<and> read_result env \<noteq> None
            \<and> \<not> tcsetattr_oldt_fails env \<and> \<not> tcflush_fails env)
    \<and> (\<not> tcgetattr_fails env \<and> \<not> tcsetattr_newt_fails env \<and> read_result env \<noteq> None
          \<and> \<not> tcsetattr_oldt_fails env \<and> \<not> tcflush_fails env
        \<longrightarrow> (\<exists>st'. DG_ReadInput sg K env tio st = (Inr st', tio)))
    \<and> (tcgetattr_fails env
        \<longrightarrow> DG_ReadInput sg K env tio st
            = (Inl (I_Error ''DG_DrawFrame: tcgetattr error %d''), tio))
    \<and> (\<not> tcgetattr_fails env \<and> tcsetattr_newt_fails env
        \<longrightarrow> DG_ReadInput sg K env tio st
            = (Inl (I_Error ''DG_DrawFrame: tcsetattr error %d''), tio))
    \<and> (\<not> tcgetattr_fails env \<and> \<not> tcsetattr_newt_fails env \<and> read_result env = None
        \<longrightarrow> DG_ReadInput sg K env tio st
            = (Inl (I_Error ''DG_DrawFrame: read error %d''), raw_mode tio))
    \<and> (\<not> tcgetattr_fails env \<and> \<not> tcsetattr_newt_fails env \<and> read_result env \<noteq> None
          \<and> tcsetattr_oldt_fails env
        \<longrightarrow> DG_ReadInput sg K env tio st
            = (Inl (I_Error ''DG_DrawFrame: tcsetattr error %d''), raw_mode tio))
    \<and> (\<not> tcgetattr_fails env \<and> \<not> tcsetattr_newt_fails env \<and> read_result env \<noteq> None
          \<and> \<not> tcsetattr_oldt_fails env \<and> tcflush_fails env
        \<longrightarrow> DG_ReadInput sg K env tio st
            = (Inl (I_Error ''DG_DrawFrame: tcflush error %d''), tio))
    \<and> c_lflag (raw_mode tio) AND ICANON = 0
    \<and> c_cc_VMIN (raw_mode tio) = 0 \<and> c_cc_VTIME (raw_mode tio) = 0"
proof -
  have returned: "\<forall>st' tio'. DG_ReadInput sg K env tio st = (Inr st', tio') \<longrightarrow>
      tio' = tio
      \<and> \<not> tcgetattr_fails env \<and> \<not> tcsetattr_newt_fails env \<and> read_result env \<noteq> None
      \<and> \<not> tcsetattr_oldt_fails env \<and> \<not> tcflush_fails env"
    unfolding DG_ReadInput_cases by (auto split: if_splits option.splits)
  have returns: "\<not> tcgetattr_fails env \<and> \<not> tcsetattr_newt_fails env \<and> read_result env \<noteq> None
        \<and> \<not> tcsetattr_oldt_fails env \<and> \<not> tcflush_fails env
      \<longrightarrow> (\<exists>st'. DG_ReadInput sg K env tio st = (Inr st', tio))"
    using DG_ReadInput_returns[OF assms, of env _ sg K tio] by auto
  have failures:
    "tcgetattr_fails env
      \<longrightarrow> DG_ReadInput sg K env tio st
          = (Inl (I_Error ''DG_DrawFrame: tcgetattr error %d''), tio)"
    "\<not> tcgetattr_fails env \<and> tcsetattr_newt_fails env
      \<longrightarrow> DG_ReadInput sg K env tio st
          = (Inl (I_Error ''DG_DrawFrame: tcsetattr error %d''), tio)"
    "\<not> tcgetattr_fails env \<and> \<not> tcsetattr_newt_fails env \<and> read_result env = None
      \<longrightarrow> DG_ReadInput sg K env tio st
          = (Inl (I_Error ''DG_DrawFrame: read error %d''), raw_mode tio)"
    "\<not> tcgetattr_fails env \<and> \<not> tcsetattr_newt_fails env \<and> read_result env \<noteq> None
        \<and> tcsetattr_oldt_fails env
      \<longrightarrow> DG_ReadInput sg K env tio st
          = (Inl (I_Error ''DG_DrawFrame: tcsetattr error %d''), raw_mode tio)"
    "\<not> tcgetattr_fails env \<and> \<not> tcsetattr_newt_fails env \<and> read_result env \<noteq> None
        \<and> \<not> tcsetattr_oldt_fails env \<and> tcflush_fails env
      \<longrightarrow> DG_ReadInput sg K env tio st
          = (Inl (I_Error ''DG_DrawFrame: tcflush error %d''), tio)"
    unfolding DG_ReadInput_cases by (auto split: option.splits)
  show ?thesis
    using returned returns failures raw_mode_fields[of tio] by (intro conjI)
qed

theorem poll_terminal_mode_witness:
  "input_ok DG_Init_input
    \<and> DG_ReadInput True example_keys (os_returns [0x61, 0x61]) cooked DG_Init_input
        = (Inr after_aa, cooked)
    \<and> \<not> tcgetattr_fails os_read_fails \<and> \<not> tcsetattr_newt_fails os_read_fails
    \<and> read_result os_read_fails = None
    \<and> DG_ReadInput True example_keys os_read_fails cooked DG_Init_input
        = (Inl (I_Error ''DG_DrawFrame: read error %d''), raw_mode cooked)
    \<and> c_lflag (raw_mode cooked) AND ICANON = 0"
proof -
  have a: "input_ok DG_Init_input"
    by (rule input_ok_init)
  have ok: "\<not> tcgetattr_fails (os_returns [0x61, 0x61])"
    "\<not> tcsetattr_newt_fails (os_returns [0x61, 0x61])"
    "read_result (os_returns [0x61, 0x61]) \<noteq> None"
    "\<not> tcsetattr_oldt_fails (os_returns [0x61, 0x61])"
    "\<not> tcflush_fails (os_returns [0x61, 0x61])"
    by (simp_all add: os_returns_def)
  have "\<exists>st'. DG_ReadInput True example_keys (os_returns [0x61, 0x61]) cooked DG_Init_input
      = (Inr st', cooked)"
    using poll_terminal_mode[OF a, of True example_keys "os_returns [0x61, 0x61]" cooked] ok
    by blast
  moreover have "fst (DG_ReadInput True example_keys (os_returns [0x61, 0x61]) cooked DG_Init_input)
      = Inr after_aa"
    by code_simp
  ultimately have b: "DG_ReadInput True example_keys (os_returns [0x61, 0x61]) cooked DG_Init_input
      = (Inr after_aa, cooked)"
    by auto
  have f: "\<not> tcgetattr_fails os_read_fails" "\<not> tcsetattr_newt_fails os_read_fails"
    "read_result os_read_fails = None"
    by (simp_all add: os_read_fails_def)
  have c: "DG_ReadInput True example_keys os_read_fails cooked DG_Init_input
      = (Inl (I_Error ''DG_DrawFrame: read error %d''), raw_mode cooked)"
    using poll_terminal_mode[OF a, of True example_keys os_read_fails cooked] f by blast
  have d: "c_lflag (raw_mode cooked) AND ICANON = 0"
    using poll_terminal_mode[OF a, of True example_keys os_read_fails cooked] by blast
  show ?thesis
    using a b f c d by simp
qed

text \<open>
  Claim C10: for a raw buffer of \<^verbatim>\<open>INPUT_BUFFER_LEN\<close> bytes whose last byte is NUL (at
  most fifteen bytes before the terminator), the decode loop returns. It makes at most
  fifteen iterations, each storing one key, and leaves the last byte of
  \<^verbatim>\<open>input_buffer\<close> NUL. Every call of \<^verbatim>\<open>convertToDoomKey\<close> made with the cursor on a
  byte other than NUL in a buffer that has a NUL further on consumes at least one
  byte, all of them other than NUL, so the cursor never passes the terminator.
\<close>

theorem decode_loop_terminates:
  assumes "length raw = INPUT_BUFFER_LEN" and "last raw = 0"
  shows "(\<exists>ib n. decode_keys K raw (replicate INPUT_BUFFER_LEN 0) 0 = Some (ib, n)
            \<and> n \<le> 15 \<and> length ib = INPUT_BUFFER_LEN \<and> last ib = 0)
    \<and> (\<forall>c rest. c \<noteq> 0 \<and> 0 \<in> set rest \<longrightarrow>
          (\<exists>k used raw'. convertToDoomKey K (c # rest) = Some (k, raw')
              \<and> c # rest = used @ raw' \<and> used \<noteq> [] \<and> 0 \<notin> set used))"
proof (rule conjI)
  let ?zeros = "replicate INPUT_BUFFER_LEN (0 :: byte)"
  have nul: "0 \<in> set raw" and held: "length (held_keys raw) \<le> INPUT_BUFFER_LEN - 1"
    using nul_terminated[OF assms] by simp_all
  then have room: "0 + length (held_keys raw) \<le> length ?zeros"
    by simp
  from decode_keys_bounded[OF nul room, of K] obtain ib n
    where dec: "decode_keys K raw ?zeros 0 = Some (ib, n)"
      and n: "n \<le> 0 + length (held_keys raw)"
      and len: "length ib = length ?zeros"
      and beyond: "\<forall>i. n \<le> i \<longrightarrow> ib ! i = ?zeros ! i"
    by blast
  have n15: "n \<le> 15"
    using n held by (simp add: INPUT_BUFFER_LEN_def)
  have len16: "length ib = 16"
    using len by (simp add: INPUT_BUFFER_LEN_def)
  have "ib ! 15 = 0"
    using beyond n15 by (simp add: INPUT_BUFFER_LEN_def)
  moreover have "ib \<noteq> []"
    using len16 by auto
  then have "last ib = ib ! (length ib - 1)"
    by (rule last_conv_nth)
  ultimately have "last ib = 0"
    using len16 by simp
  then show "\<exists>ib n. decode_keys K raw ?zeros 0 = Some (ib, n)
      \<and> n \<le> 15 \<and> length ib = INPUT_BUFFER_LEN \<and> last ib = 0"
    using dec n15 len by simp
  show "\<forall>c rest. c \<noteq> 0 \<and> 0 \<in> set rest \<longrightarrow>
      (\<exists>k used raw'. convertToDoomKey K (c # rest) = Some (k, raw')
          \<and> c # rest = used @ raw' \<and> used \<noteq> [] \<and> 0 \<notin> set used)"
    using convertToDoomKey_step[of _ _ K] by blast
qed

theorem decode_loop_terminates_witness:
  "length up_arrow_buffer = INPUT_BUFFER_LEN \<and> last up_arrow_buffer = 0
    \<and> decode_keys example_keys up_arrow_buffer (replicate INPUT_BUFFER_LEN 0) 0
        = Some ([0xAD] @ replicate 15 0, 1)
    \<and> (\<exists>ib n. decode_keys example_keys up_arrow_buffer (replicate INPUT_BUFFER_LEN 0) 0
            = Some (ib, n)
          \<and> n \<le> 15 \<and> length ib = INPUT_BUFFER_LEN \<and> last ib = 0)"
proof -
  have a: "length up_arrow_buffer = INPUT_BUFFER_LEN"
    by code_simp
  have b: "last up_arrow_buffer = 0"
    by code_simp
  have c: "decode_keys example_keys up_arrow_buffer (replicate INPUT_BUFFER_LEN 0) 0
      = Some ([0xAD] @ replicate 15 0, 1)"
    by code_simp
  show ?thesis
    using decode_loop_terminates[OF a b, of example_keys] a b c by blast
qed

end
